theory Spec2Isabelle
  imports Main "HOL-Library.AList" "HOL-Library.Multiset" "HOL-Library.Sublist"
begin

section \<open>Blocks of the component tree (pyomo/core/base/component_block.py)\<close>

text \<open>
  The development has two parts.  The first embeds the mutable side of the class
  \<open>block\<close>: the methods \<open>__setattr__\<close>, \<open>__delattr__\<close> and \<open>children\<close>, over an
  explicit store of objects, because a component, its parent block and the block's
  two indices are shared, mutable objects.  The second embeds the traversal engine of
  \<open>_block_base\<close> over finite trees.
\<close>

subsection \<open>Values, categories and errors\<close>

type_synonym oid = nat

text \<open>
  A category tag (\<open>ctype\<close>) is a class object that the code only compares; \<open>Block\<close> is
  the one tag the code names.
\<close>

datatype ctype = Block | Ctype string

text \<open>
  A Python value assigned to, or read from, an attribute: a reference to a categorized
  object (an instance of \<open>IComponent\<close> or \<open>IComponentContainer\<close>), or a value that is
  not one (\<open>None\<close>, a boolean, a weak reference, anything else).
\<close>

datatype pyval = Categorized oid | PyNone | PyBool bool | WeakRef oid | PyOther string

fun is_categorized :: "pyval \<Rightarrow> bool" where
  "is_categorized (Categorized c) = True"
| "is_categorized v = False"

datatype error =
  ValueError | KeyError | AttributeError | AssertionError | TypeError | StopIteration

text \<open>A record of the logger: the warning of an implicit replacement names the attribute.\<close>

datatype log_entry = ImplicitReplaceWarning string

subsection \<open>The store\<close>

text \<open>
  Every object has a category and the slot \<open>_parent\<close> (\<open>None\<close>, or a weak reference
  to a block).  An object used as a block has, besides, the instance dictionary of its
  attributes (\<open>__dict__\<close>, the user's attributes), the declaration-order index
  \<open>__order\<close> and the per-category index \<open>__byctype\<close>.  Python dictionaries keep
  insertion order; they are association lists here, assigned with \<open>AList.update\<close>
  (in place for a key that is present, at the end otherwise) and deleted from with
  \<open>AList.delete\<close>.
\<close>

record obj =
  h_ctype :: ctype
  h_parent :: "oid option"
  h_dict :: "(string \<times> pyval) list"
  h_order :: "(string \<times> oid) list"
  h_byctype :: "(ctype \<times> (string \<times> oid) list) list"

type_synonym heap = "oid \<Rightarrow> obj"

definition set_parent :: "heap \<Rightarrow> oid \<Rightarrow> oid option \<Rightarrow> heap" where
  "set_parent h c p = h(c := (h c)\<lparr>h_parent := p\<rparr>)"

definition set_dict :: "heap \<Rightarrow> oid \<Rightarrow> (string \<times> pyval) list \<Rightarrow> heap" where
  "set_dict h b d = h(b := (h b)\<lparr>h_dict := d\<rparr>)"

definition set_order :: "heap \<Rightarrow> oid \<Rightarrow> (string \<times> oid) list \<Rightarrow> heap" where
  "set_order h b d = h(b := (h b)\<lparr>h_order := d\<rparr>)"

definition set_byctype :: "heap \<Rightarrow> oid \<Rightarrow> (ctype \<times> (string \<times> oid) list) list \<Rightarrow> heap" where
  "set_byctype h b d = h(b := (h b)\<lparr>h_byctype := d\<rparr>)"

definition has_key :: "'k \<Rightarrow> ('k \<times> 'v) list \<Rightarrow> bool" where
  "has_key k d = (map_of d k \<noteq> None)"

text \<open>\<open>object.__setattr__\<close> and \<open>object.__delattr__\<close> on the instance dictionary.\<close>

definition super_setattr :: "heap \<Rightarrow> oid \<Rightarrow> string \<Rightarrow> pyval \<Rightarrow> heap" where
  "super_setattr h self name v = set_dict h self (AList.update name v (h_dict (h self)))"

definition super_delattr :: "heap \<Rightarrow> oid \<Rightarrow> string \<Rightarrow> heap" where
  "super_delattr h self name = set_dict h self (AList.delete name (h_dict (h self)))"

subsection \<open>\<open>block.__delattr__\<close>\<close>

text \<open>
  \<open>getattr(self, name)\<close> raises \<open>AttributeError\<close> for a name that is not bound.  For a
  categorized value the two indices are updated first: \<open>del\<close> raises \<open>KeyError\<close> for a
  missing key, and \<open>self.__byctype[ctype]\<close> is a \<open>defaultdict\<close> access, which creates
  an empty bucket for a missing category before the deletion from it fails.  The
  result is the error raised, if any, and the store as it is at that point.
\<close>

definition block_delattr :: "heap \<Rightarrow> oid \<Rightarrow> string \<Rightarrow> error option \<times> heap" where
  "block_delattr h self name =
    (case map_of (h_dict (h self)) name of
       None \<Rightarrow> (Some AttributeError, h)
     | Some (Categorized c) \<Rightarrow>
         if \<not> has_key name (h_order (h self)) then (Some KeyError, h)
         else
           let h1 = set_order h self (AList.delete name (h_order (h self)));
               ct = h_ctype (h1 c)
           in (case map_of (h_byctype (h1 self)) ct of
                 None \<Rightarrow> (Some KeyError, set_byctype h1 self (AList.update ct [] (h_byctype (h1 self))))
               | Some bucket \<Rightarrow>
                   if \<not> has_key name bucket then (Some KeyError, h1)
                   else
                     let h2 = set_byctype h1 self
                                (AList.update ct (AList.delete name bucket) (h_byctype (h1 self)));
                         h3 = (if length (the (map_of (h_byctype (h2 self)) ct)) = 0
                               then set_byctype h2 self (AList.delete ct (h_byctype (h2 self)))
                               else h2);
                         h4 = set_parent h3 c None
                     in (None, super_delattr h4 self name))
     | Some v \<Rightarrow> (None, super_delattr h self name))"

subsection \<open>\<open>block.__setattr__\<close>\<close>

text \<open>
  The result is the error raised (if any), the warnings logged, and the store.
  \<open>hasattr(self, name)\<close> and \<open>getattr(self, name)\<close> read the instance dictionary.
\<close>

definition block_setattr ::
  "heap \<Rightarrow> oid \<Rightarrow> string \<Rightarrow> pyval \<Rightarrow> error option \<times> log_entry list \<times> heap" where
  "block_setattr h self name component =
    (case component of
       Categorized c \<Rightarrow>
         if h_parent (h c) = None then
           (let (err, logged, h1) =
                  (if has_key name (h_dict (h self))
                   then (let (e, h') = block_delattr h self name
                         in (e, [ImplicitReplaceWarning name], h'))
                   else (None, [], h))
            in case err of
                 Some e \<Rightarrow> (Some e, logged, h1)
               | None \<Rightarrow>
                   let ct = h_ctype (h1 c);
                       h2 = (if \<not> has_key ct (h_byctype (h1 self))
                             then set_byctype h1 self (AList.update ct [] (h_byctype (h1 self)))
                             else h1);
                       h3 = set_byctype h2 self
                              (AList.update ct
                                 (AList.update name c (the (map_of (h_byctype (h2 self)) ct)))
                                 (h_byctype (h2 self)));
                       h4 = set_order h3 self (AList.update name c (h_order (h3 self)));
                       h5 = set_parent h4 c (Some self)
                   in (None, logged, super_setattr h5 self name component))
         else if has_key name (h_dict (h self))
                 \<and> map_of (h_dict (h self)) name = Some (Categorized c)
         then (None, [], super_setattr h self name component)
         else (Some ValueError, [], h)
     | v \<Rightarrow> (None, [], super_setattr h self name component))"

subsection \<open>\<open>block.children\<close>\<close>

text \<open>
  The category argument is \<open>None\<close> for the default \<open>_no_ctype\<close>.  With
  \<open>return_key=True\<close> the items of the index are produced, otherwise its values.
\<close>

definition block_children_items :: "heap \<Rightarrow> oid \<Rightarrow> ctype option \<Rightarrow> (string \<times> oid) list" where
  "block_children_items h self ctype =
    (case ctype of
       None \<Rightarrow> h_order (h self)
     | Some ct \<Rightarrow> (case map_of (h_byctype (h self)) ct of None \<Rightarrow> [] | Some bucket \<Rightarrow> bucket))"

definition block_children_values :: "heap \<Rightarrow> oid \<Rightarrow> ctype option \<Rightarrow> oid list" where
  "block_children_values h self ctype = map snd (block_children_items h self ctype)"

subsection \<open>Fresh blocks and reachable stores\<close>

text \<open>
  \<open>block.__init__\<close>: no parent, empty indices, no attribute of the user.  In the
  fresh store every object is in this state; \<open>ct\<close> gives each object its category.
\<close>

definition fresh :: "(oid \<Rightarrow> ctype) \<Rightarrow> heap" where
  "fresh ct = (\<lambda>c. \<lparr>h_ctype = ct c, h_parent = None, h_dict = [], h_order = [], h_byctype = []\<rparr>)"

text \<open>The store after \<open>b0.x = e1\<close> on fresh objects, with \<open>e1\<close> of category \<open>Var\<close>.\<close>

definition attached_x :: heap where
  "attached_x = snd (snd (block_setattr (fresh (\<lambda>c. Ctype ''Var'')) 0 ''x'' (Categorized 1)))"

text \<open>
  A store is reachable when it results from a fresh one by attaching entities to
  blocks and detaching names from blocks, in any number and order, on any objects.
  An operation that raises contributes the store it leaves behind.
\<close>

inductive reachable :: "heap \<Rightarrow> bool" where
  reachable_fresh: "reachable (fresh ct)"
| reachable_attach: "reachable h \<Longrightarrow> reachable (snd (snd (block_setattr h b n (Categorized e))))"
| reachable_detach: "reachable h \<Longrightarrow> reachable (snd (block_delattr h b n))"

text \<open>
  Agreement of the two indices of a block: keys and children of the order index are
  not repeated, there is one bucket for a category, a bucket is not empty, does not
  repeat a key and holds only entries of the order index whose child has the bucket's
  category, and every entry of the order index is in the bucket of its child's category.
\<close>

definition indices_agree :: "heap \<Rightarrow> oid \<Rightarrow> bool" where
  "indices_agree h b \<longleftrightarrow>
     distinct (map fst (h_order (h b))) \<and>
     distinct (map snd (h_order (h b))) \<and>
     distinct (map fst (h_byctype (h b))) \<and>
     (\<forall>(ct, bucket) \<in> set (h_byctype (h b)).
         bucket \<noteq> [] \<and> distinct (map fst bucket) \<and>
         (\<forall>(n, e) \<in> set bucket. h_ctype (h e) = ct \<and> (n, e) \<in> set (h_order (h b)))) \<and>
     (\<forall>(n, e) \<in> set (h_order (h b)).
         \<exists>bucket. (h_ctype (h e), bucket) \<in> set (h_byctype (h b)) \<and> (n, e) \<in> set bucket)"

text \<open>
  The invariant of a block in a reachable store.  Besides the above: a bucket is the
  order index restricted to its category, in the same order; an entry of the order
  index is the value of the attribute of that name and has the block as its parent;
  and a categorized attribute value is in the order index.
\<close>

definition block_inv :: "heap \<Rightarrow> oid \<Rightarrow> bool" where
  "block_inv h b \<longleftrightarrow>
     distinct (map fst (h_order (h b))) \<and>
     distinct (map snd (h_order (h b))) \<and>
     distinct (map fst (h_byctype (h b))) \<and>
     (\<forall>ct bucket. (ct, bucket) \<in> set (h_byctype (h b)) \<longrightarrow>
         bucket \<noteq> [] \<and> bucket = filter (\<lambda>(n, e). h_ctype (h e) = ct) (h_order (h b))) \<and>
     (\<forall>n e. (n, e) \<in> set (h_order (h b)) \<longrightarrow>
         has_key (h_ctype (h e)) (h_byctype (h b)) \<and>
         map_of (h_dict (h b)) n = Some (Categorized e) \<and>
         h_parent (h e) = Some b) \<and>
     (\<forall>n e. map_of (h_dict (h b)) n = Some (Categorized e) \<longrightarrow> (n, e) \<in> set (h_order (h b)))"

definition heap_inv :: "heap \<Rightarrow> bool" where
  "heap_inv h \<longleftrightarrow> (\<forall>b. block_inv h b)"

subsection \<open>The effect of a successful registration and removal\<close>

text \<open>
  The store after \<open>del b.n\<close> where \<open>b.n\<close> is the registered child \<open>c\<close>, and the store
  after \<open>b.n = c\<close> for a parentless \<open>c\<close> and a name \<open>n\<close> that is not bound.  The lemmas
  \<open>delattr_registered\<close> and \<open>setattr_unbound\<close> below show that the two methods compute them.
\<close>

definition detached :: "heap \<Rightarrow> oid \<Rightarrow> string \<Rightarrow> oid \<Rightarrow> heap" where
  "detached h b n c = (\<lambda>x.
     (h x)\<lparr> h_parent := (if x = c then None else h_parent (h x)),
             h_dict := (if x = b then AList.delete n (h_dict (h b)) else h_dict (h x)),
             h_order := (if x = b then AList.delete n (h_order (h b)) else h_order (h x)),
             h_byctype := (if x = b then
                 (let bucket = AList.delete n (the (map_of (h_byctype (h b)) (h_ctype (h c))))
                  in if bucket = [] then AList.delete (h_ctype (h c)) (h_byctype (h b))
                     else AList.update (h_ctype (h c)) bucket (h_byctype (h b)))
                else h_byctype (h x)) \<rparr>)"

definition attached :: "heap \<Rightarrow> oid \<Rightarrow> string \<Rightarrow> oid \<Rightarrow> heap" where
  "attached h b n c = (\<lambda>x.
     (h x)\<lparr> h_parent := (if x = c then Some b else h_parent (h x)),
             h_dict := (if x = b then AList.update n (Categorized c) (h_dict (h b)) else h_dict (h x)),
             h_order := (if x = b then AList.update n c (h_order (h b)) else h_order (h x)),
             h_byctype := (if x = b then
                 (case map_of (h_byctype (h b)) (h_ctype (h c)) of
                    None \<Rightarrow> h_byctype (h b) @ [(h_ctype (h c), [(n, c)])]
                  | Some bucket \<Rightarrow> AList.update (h_ctype (h c)) (AList.update n c bucket) (h_byctype (h b)))
                else h_byctype (h x)) \<rparr>)"

text \<open>The store on which a parentless entity is registered: the given one, or the one
  left by the implicit deletion of the attribute.\<close>

definition before_attach :: "heap \<Rightarrow> oid \<Rightarrow> string \<Rightarrow> heap" where
  "before_attach h b n = (if has_key n (h_dict (h b)) then snd (block_delattr h b n) else h)"

subsection \<open>\<open>StaticBlock.children\<close>\<close>

text \<open>
  A \<open>StaticBlock\<close> keeps its children in slots.  Its own class declares the slots
  \<open>_parent\<close>, \<open>_active\<close> and \<open>__weakref__\<close>; the classes derived from it declare the
  others, which are listed here base class first with their values (\<open>None\<close> for a slot
  that holds no value, whose \<open>getattr\<close> raises \<open>AttributeError\<close>); an instance of a class
  without \<open>__slots__\<close> has a dictionary as well.
\<close>

record static_block =
  sb_parent :: "oid option"
  sb_active :: bool
  sb_weakref :: "oid option"
  sb_slots :: "(string \<times> pyval option) list"
  sb_dict :: "(string \<times> pyval) list"

definition weakref_value :: "oid option \<Rightarrow> pyval" where
  "weakref_value r = (case r of None \<Rightarrow> PyNone | Some p \<Rightarrow> WeakRef p)"

text \<open>\<open>StaticBlock._getattrs\<close>: the slots along the inheritance chain, then the dictionary.\<close>

definition StaticBlock_getattrs :: "static_block \<Rightarrow> error + (string \<times> pyval) list" where
  "StaticBlock_getattrs self =
     (let slots = [(''_parent'', Some (weakref_value (sb_parent self))),
                   (''_active'', Some (PyBool (sb_active self))),
                   (''__weakref__'', Some (weakref_value (sb_weakref self)))] @ sb_slots self
      in if \<exists>(key, v) \<in> set slots. v = None then Inl AttributeError
         else Inr (map (\<lambda>(key, v). (key, the v)) slots @ sb_dict self))"

text \<open>
  \<open>StaticBlock.children(ctype, return_key=True)\<close>; the category of a categorized
  object is read from the store.
\<close>

definition StaticBlock_children ::
  "heap \<Rightarrow> static_block \<Rightarrow> ctype option \<Rightarrow> error + (string \<times> pyval) list" where
  "StaticBlock_children h self ctype =
     (case StaticBlock_getattrs self of
        Inl e \<Rightarrow> Inl e
      | Inr attrs \<Rightarrow>
          Inr (filter (\<lambda>(key, child).
                 (case child of
                    Categorized c \<Rightarrow> ctype = None \<or> Some (h_ctype (h c)) = ctype
                  | v \<Rightarrow> False)) attrs))"

text \<open>A static block with the child \<open>e1\<close> in the slot \<open>x\<close> and plain data in the slot \<open>d\<close>.\<close>

definition static_example :: static_block where
  "static_example = \<lparr>sb_parent = None, sb_active = True, sb_weakref = Some 0,
     sb_slots = [(''x'', Some (Categorized 1)), (''d'', Some (PyOther ''data''))], sb_dict = []\<rparr>"

section \<open>The traversal engine of \<open>_block_base\<close> over trees\<close>

subsection \<open>Trees of entities\<close>

text \<open>
  A storage key is the name of an attribute of a block, or the position or key of an
  entry of a list or dictionary container.  The root key of a traversal is optional
  (\<open>root_key=None\<close>).
\<close>

datatype key = Name string | Index nat
text \<open>The two classes that inherit the engine: \<open>block\<close> and \<open>StaticBlock\<close>.\<close>

datatype block_kind = DynamicBlock | StaticBlock

text \<open>
  Modelled from the spec: the class attributes \<open>_child_storage_delimiter_string\<close> and
  \<open>_child_storage_entry_string\<close> of the list and dictionary containers, whose classes
  (\<open>ComponentList\<close>, \<open>ComponentDict\<close>) are not in the source given; \<open>generate_names\<close>
  reads both from the parent of each entity.  The entry string is a format with one
  \<open>%s\<close>: the text before and the text after it.  For a block the two attributes are
  in the source (\<open>"."\<close> and \<open>"%s"\<close>, class \<open>IBlockStorage\<close>).
\<close>

record naming =
  child_storage_delimiter_string :: string
  child_storage_entry_string :: "string \<times> string"

text \<open>
  An entity is one of three kinds, told apart in the code by the class attributes
  \<open>_is_component\<close> and \<open>_is_container\<close>:
  \<^item> a leaf component (component, no container): identity, category, the attribute
    \<open>active\<close> if it has one, parent;
  \<^item> a block (component and container, of category \<open>Block\<close>): identity, class, the
    flag \<open>_active\<close>, parent, and the children in the order of \<open>children(return_key=True)\<close>;
  \<^item> a list or dictionary container (container, no component): identity, category,
    the attribute \<open>active\<close> if the class is an \<open>_IActiveComponentContainer\<close>,
    parent, naming attributes, and the children in order.
  The identity stands for the Python object (\<open>is\<close>, and the keys of a \<open>ComponentMap\<close>);
  the parent is the identity of the object that the weak reference \<open>_parent\<close> points to.
\<close>

datatype entity =
    Leaf oid ctype "bool option" "oid option"
  | BlockNode oid block_kind bool "oid option" "(key \<times> entity) list"
  | Container oid ctype "bool option" "oid option" naming "(key \<times> entity) list"

fun ident :: "entity \<Rightarrow> oid" where
  "ident (Leaf i ct a p) = i"
| "ident (BlockNode i kd a p cs) = i"
| "ident (Container i ct a p nm cs) = i"

fun ctype_of :: "entity \<Rightarrow> ctype" where
  "ctype_of (Leaf i ct a p) = ct"
| "ctype_of (BlockNode i kd a p cs) = Block"
| "ctype_of (Container i ct a p nm cs) = ct"

fun is_component :: "entity \<Rightarrow> bool" where
  "is_component (Leaf i ct a p) = True"
| "is_component (BlockNode i kd a p cs) = True"
| "is_component (Container i ct a p nm cs) = False"

fun is_container :: "entity \<Rightarrow> bool" where
  "is_container (Leaf i ct a p) = False"
| "is_container (BlockNode i kd a p cs) = True"
| "is_container (Container i ct a p nm cs) = True"

fun active_attr :: "entity \<Rightarrow> bool option" where
  "active_attr (Leaf i ct a p) = a"
| "active_attr (BlockNode i kd a p cs) = Some a"
| "active_attr (Container i ct a p nm cs) = a"

text \<open>\<open>getattr(x, "active", True)\<close>.\<close>

definition getattr_active :: "entity \<Rightarrow> bool" where
  "getattr_active x = (case active_attr x of None \<Rightarrow> True | Some a \<Rightarrow> a)"

text \<open>\<open>x.children(return_key=True)\<close> for a container; a leaf has none.\<close>

fun children :: "entity \<Rightarrow> (key \<times> entity) list" where
  "children (Leaf i ct a p) = []"
| "children (BlockNode i kd a p cs) = cs"
| "children (Container i ct a p nm cs) = cs"

text \<open>
  A generator that raises stops the iteration that consumes it: the results of the
  parts of a loop are concatenated up to the first error, which is then the result.
\<close>

fun concat_results :: "(error + 'a list) list \<Rightarrow> error + 'a list" where
  "concat_results [] = Inr []"
| "concat_results (r # rs) =
     (case r of
        Inl e \<Rightarrow> Inl e
      | Inr xs \<Rightarrow> (case concat_results rs of Inl e \<Rightarrow> Inl e | Inr ys \<Rightarrow> Inr (xs @ ys)))"

subsection \<open>Traversals of list and dictionary containers\<close>

text \<open>
  Modelled from the spec: the method \<open>preorder_traversal(active, return_key, root_key)\<close>
  of the list and dictionary containers, which the engine calls on a child that is a
  container and no component; the classes are not in the source given.  Following
  section 4.3 and 4.4 of the specification and the comments of the engine on the
  objects it produces ("a container of blocks", "a block"): nothing for a container that
  fails the active filter; otherwise the container itself, then for each child that
  passes the active filter, in order, the child if it is a component (a leaf or a
  block, not entered), and the traversal of the child if it is a container.
\<close>

fun container_preorder :: "bool \<Rightarrow> key option \<Rightarrow> entity \<Rightarrow> (key option \<times> entity) list" where
  "container_preorder act root_key (Container i ct a p nm cs) =
     (if act \<and> \<not> getattr_active (Container i ct a p nm cs) then []
      else (root_key, Container i ct a p nm cs) #
           concat (map (\<lambda>(key, child).
                     if act \<and> \<not> getattr_active child then []
                     else if is_component child then [(Some key, child)]
                     else container_preorder act (Some key) child) cs))"
| "container_preorder act root_key x = []"

subsection \<open>\<open>_block_base.preorder_traversal\<close>\<close>

text \<open>
  The body of the method after its assertion, with \<open>return_key=True\<close>: the argument
  \<open>act\<close> is true for \<open>active=True\<close> and false for \<open>active=None\<close>, and the category is
  \<open>None\<close> for \<open>_no_ctype\<close>.  Every recursive call passes \<open>active\<close> on unchanged, so the
  assertion holds in the calls when it holds at the entry.  The method of a block called
  on an object that is no block raises: \<open>AttributeError\<close> for a leaf, which has no such
  method, \<open>TypeError\<close> for a container, whose method has no argument \<open>ctype\<close>.
\<close>

function preorder_items ::
  "ctype option \<Rightarrow> bool \<Rightarrow> bool \<Rightarrow> key option \<Rightarrow> entity \<Rightarrow> error + (key option \<times> entity) list" where
  "preorder_items ctype act ipb root_key (BlockNode i kd a p cs) =
     (if act \<and> \<not> a then Inr []
      else
        (case concat_results (map (\<lambda>(key, child).
                if ctype = None \<or> Some (ctype_of child) = ctype \<or> ctype_of child = Block then
                  if \<not> act \<or> getattr_active child then
                    if \<not> is_container child then Inr [(Some key, child)]
                    else if \<not> is_component child then
                      if ctype_of child = Block then
                        concat_results (map (\<lambda>(obj_key, obj).
                            if \<not> is_component obj then
                              (if ctype = None \<or> ctype = Some Block \<or> ipb
                               then Inr [(obj_key, obj)] else Inr [])
                            else preorder_items ctype act ipb obj_key obj)
                          (container_preorder act (Some key) child))
                      else Inr (container_preorder act (Some key) child)
                    else preorder_items ctype act ipb (Some key) child
                  else Inr []
                else Inr []) cs) of
           Inl e \<Rightarrow> Inl e
         | Inr rest \<Rightarrow>
             Inr ((if ipb \<or> ctype = None \<or> ctype = Some Block
                   then [(root_key, BlockNode i kd a p cs)] else []) @ rest)))"
| "preorder_items ctype act ipb root_key (Leaf i ct a p) = Inl AttributeError"
| "preorder_items ctype act ipb root_key (Container i ct a p nm cs) = Inl TypeError"
  by pat_completeness auto


lemma size_child: "(key, child) \<in> set cs \<Longrightarrow> size child < Suc (size_list (size_prod (\<lambda>_. 0) size) cs)"
  by (induction cs) auto

lemma container_preorder_size:
  "(k, x) \<in> set (container_preorder act rk c) \<Longrightarrow> size x \<le> size c"
proof (induction act rk c arbitrary: k x rule: container_preorder.induct)
  case (1 act root_key i ct a p nm cs)
  show ?case
  proof (cases "(k, x) = (root_key, Container i ct a p nm cs)")
    case True
    then show ?thesis by simp
  next
    case False
    with "1.prems" obtain key child where kc: "(key, child) \<in> set cs"
      and x: "(k, x) \<in> set (if act \<and> \<not> getattr_active child then []
                     else if is_component child then [(Some key, child)]
                     else container_preorder act (Some key) child)"
      by (auto split: if_splits)
    have "size x \<le> size child"
    proof (cases "is_component child")
      case True
      with x show ?thesis by (auto split: if_splits)
    next
      case False
      with x have "\<not> (act \<and> \<not> getattr_active child)"
        and "(k, x) \<in> set (container_preorder act (Some key) child)"
        by (auto split: if_splits)
      with "1.IH" [OF _ kc refl _ False] "1.prems" show ?thesis
        by (auto split: if_splits)
    qed
    with size_child [OF kc] show ?thesis by simp
  qed
qed simp_all

termination preorder_items
proof (relation "measure (\<lambda>(ctype, act, ipb, root_key, e). size e)", goal_cases)
  case 1
  show ?case by simp
next
  case (2 ctype act ipb root_key i kd a p cs x key child z obj_key obj)
  then have "size obj \<le> size child"
    using container_preorder_size by blast
  moreover from 2 have "size child < Suc (size_list (size_prod (\<lambda>_. 0) size) cs)"
    using size_child by auto
  ultimately show ?case by simp
next
  case (3 ctype act ipb root_key i kd a p cs x key child)
  then show ?case using size_child by auto
qed


subsection \<open>\<open>_block_base.postorder_traversal\<close>\<close>

text \<open>
  Modelled from the spec: the method \<open>postorder_traversal(active, return_key, root_key)\<close>
  of the list and dictionary containers (classes not in the source given): as their
  preorder traversal, with the container after its children.
\<close>

fun container_postorder :: "bool \<Rightarrow> key option \<Rightarrow> entity \<Rightarrow> (key option \<times> entity) list" where
  "container_postorder act root_key (Container i ct a p nm cs) =
     (if act \<and> \<not> getattr_active (Container i ct a p nm cs) then []
      else concat (map (\<lambda>(key, child).
                     if act \<and> \<not> getattr_active child then []
                     else if is_component child then [(Some key, child)]
                     else container_postorder act (Some key) child) cs)
           @ [(root_key, Container i ct a p nm cs)])"
| "container_postorder act root_key x = []"

function postorder_items ::
  "ctype option \<Rightarrow> bool \<Rightarrow> bool \<Rightarrow> key option \<Rightarrow> entity \<Rightarrow> error + (key option \<times> entity) list" where
  "postorder_items ctype act ipb root_key (BlockNode i kd a p cs) =
     (if act \<and> \<not> a then Inr []
      else
        (case concat_results (map (\<lambda>(key, child).
                if ctype = None \<or> Some (ctype_of child) = ctype \<or> ctype_of child = Block then
                  if \<not> act \<or> getattr_active child then
                    if \<not> is_container child then Inr [(Some key, child)]
                    else if \<not> is_component child then
                      if ctype_of child = Block then
                        concat_results (map (\<lambda>(obj_key, obj).
                            if \<not> is_component obj then
                              (if ctype = None \<or> ctype = Some Block \<or> ipb
                               then Inr [(obj_key, obj)] else Inr [])
                            else postorder_items ctype act ipb obj_key obj)
                          (container_postorder act (Some key) child))
                      else Inr (container_postorder act (Some key) child)
                    else postorder_items ctype act ipb (Some key) child
                  else Inr []
                else Inr []) cs) of
           Inl e \<Rightarrow> Inl e
         | Inr rest \<Rightarrow>
             Inr (rest @ (if ipb \<or> ctype = None \<or> ctype = Some Block
                          then [(root_key, BlockNode i kd a p cs)] else []))))"
| "postorder_items ctype act ipb root_key (Leaf i ct a p) = Inl AttributeError"
| "postorder_items ctype act ipb root_key (Container i ct a p nm cs) = Inl TypeError"
  by pat_completeness auto

lemma container_postorder_size:
  "(k, x) \<in> set (container_postorder act rk c) \<Longrightarrow> size x \<le> size c"
proof (induction act rk c arbitrary: k x rule: container_postorder.induct)
  case (1 act root_key i ct a p nm cs)
  show ?case
  proof (cases "(k, x) = (root_key, Container i ct a p nm cs)")
    case True
    then show ?thesis by simp
  next
    case False
    with "1.prems" obtain key child where kc: "(key, child) \<in> set cs"
      and x: "(k, x) \<in> set (if act \<and> \<not> getattr_active child then []
                     else if is_component child then [(Some key, child)]
                     else container_postorder act (Some key) child)"
      by (auto split: if_splits)
    have "size x \<le> size child"
    proof (cases "is_component child")
      case True
      with x show ?thesis by (auto split: if_splits)
    next
      case False
      with x have "\<not> (act \<and> \<not> getattr_active child)"
        and "(k, x) \<in> set (container_postorder act (Some key) child)"
        by (auto split: if_splits)
      with "1.IH" [OF _ kc refl _ False] "1.prems" show ?thesis
        by (auto split: if_splits)
    qed
    with size_child [OF kc] show ?thesis by simp
  qed
qed simp_all

termination postorder_items
proof (relation "measure (\<lambda>(ctype, act, ipb, root_key, e). size e)", goal_cases)
  case 1
  show ?case by simp
next
  case (2 ctype act ipb root_key i kd a p cs x key child z obj_key obj)
  then have "size obj \<le> size child"
    using container_postorder_size by blast
  moreover from 2 have "size child < Suc (size_list (size_prod (\<lambda>_. 0) size) cs)"
    using size_child by auto
  ultimately show ?case by simp
next
  case (3 ctype act ipb root_key i kd a p cs x key child)
  then show ?case using size_child by auto
qed

subsection \<open>\<open>_block_base.components\<close> and \<open>blocks\<close>\<close>

text \<open>
  Modelled from the spec: the method \<open>components()\<close> of the list and dictionary
  containers (classes not in the source given): the components stored in the container,
  in order, through nested containers; a component is not entered.
\<close>

fun container_components :: "entity \<Rightarrow> entity list" where
  "container_components (Container i ct a p nm cs) =
     concat (map (\<lambda>(key, child).
               if is_component child then [child] else container_components child) cs)"
| "container_components x = []"

text \<open>
  \<open>self.children(ctype=ctype)\<close>.  For a \<open>StaticBlock\<close> it is the children whose category
  equals the argument.  For a \<open>block\<close> it is the bucket of the category, which in every
  reachable store is the order index restricted to the category (the invariant
  \<open>block_inv\<close> above).
\<close>

definition children_of :: "entity \<Rightarrow> ctype option \<Rightarrow> (key \<times> entity) list" where
  "children_of self ctype =
     (case ctype of
        None \<Rightarrow> children self
      | Some ct \<Rightarrow> filter (\<lambda>(key, child). ctype_of child = ct) (children self))"

text \<open>\<open>isinstance(child, _IActiveComponentContainer)\<close>: the class provides \<open>active\<close>.\<close>

definition is_active_container :: "entity \<Rightarrow> bool" where
  "is_active_container x = (active_attr x \<noteq> None)"

function components_list :: "ctype option \<Rightarrow> bool \<Rightarrow> bool \<Rightarrow> entity \<Rightarrow> error + entity list" where
  "components_list ctype act descend_into (BlockNode i kd a p cs) =
     (if act \<and> \<not> a then Inr []
      else
        (case concat_results (map (\<lambda>(key, child).
                if \<not> act \<or> getattr_active child then
                  if is_component child then Inr [child]
                  else if act \<and> is_active_container child
                       then Inr (filter getattr_active (container_components child))
                       else Inr (container_components child)
                else Inr []) (children_of (BlockNode i kd a p cs) ctype)) of
           Inl e \<Rightarrow> Inl e
         | Inr here \<Rightarrow>
             if descend_into then
               (case concat_results (map (\<lambda>(key, child).
                       if \<not> act \<or> getattr_active child then
                         if is_component child then components_list ctype act descend_into child
                         else concat_results (map (\<lambda>comp.
                                if \<not> act \<or> getattr_active comp
                                then components_list ctype act descend_into comp
                                else Inr []) (container_components child))
                       else Inr []) (children_of (BlockNode i kd a p cs) (Some Block))) of
                  Inl e \<Rightarrow> Inl e
                | Inr below \<Rightarrow> Inr (here @ below))
             else Inr here))"
| "components_list ctype act descend_into (Leaf i ct a p) = Inl AttributeError"
| "components_list ctype act descend_into (Container i ct a p nm cs) = Inl TypeError"
  by pat_completeness auto

lemma container_components_size:
  "x \<in> set (container_components c) \<Longrightarrow> size x < size c"
proof (induction c arbitrary: x rule: container_components.induct)
  case (1 i ct a p nm cs)
  then obtain key child where kc: "(key, child) \<in> set cs"
    and x: "x \<in> set (if is_component child then [child] else container_components child)"
    by auto
  have "size x \<le> size child"
  proof (cases "is_component child")
    case True
    with x show ?thesis by simp
  next
    case False
    with x have "x \<in> set (container_components child)" by simp
    from "1.IH" [OF kc refl False this] show ?thesis by simp
  qed
  with size_child [OF kc] show ?case by simp
qed simp_all

lemma children_of_subset: "set (children_of self ctype) \<subseteq> set (children self)"
  by (auto simp: children_of_def split: option.splits)

termination components_list
proof (relation "measure (\<lambda>(ctype, act, descend_into, e). size e)", goal_cases)
  case 1
  show ?case by simp
next
  case (2 ctype act descend_into i kd a p cs here x key child)
  then have "(key, child) \<in> set cs"
    using children_of_subset [of "BlockNode i kd a p cs" "Some Block"] by auto
  then show ?case using size_child by auto
next
  case (3 ctype act descend_into i kd a p cs here x key child comp)
  then have "(key, child) \<in> set cs"
    using children_of_subset [of "BlockNode i kd a p cs" "Some Block"] by auto
  moreover from 3 have "size comp < size child"
    using container_components_size by blast
  ultimately show ?case using size_child [of key child cs] by simp
qed


fun blocks_list :: "bool \<Rightarrow> bool \<Rightarrow> entity \<Rightarrow> error + entity list" where
  "blocks_list act descend_into (BlockNode i kd a p cs) =
     (if \<not> act \<or> a then
        (case components_list (Some Block) act descend_into (BlockNode i kd a p cs) of
           Inl e \<Rightarrow> Inl e
         | Inr comps \<Rightarrow> Inr (BlockNode i kd a p cs # comps))
      else Inr [])"
| "blocks_list act descend_into x = Inl AttributeError"

subsection \<open>\<open>collect_ctypes\<close> of \<open>block\<close> and of \<open>StaticBlock\<close>\<close>

fun union_results :: "(error + 'a set) list \<Rightarrow> error + 'a set" where
  "union_results [] = Inr {}"
| "union_results (r # rs) =
     (case r of
        Inl e \<Rightarrow> Inl e
      | Inr A \<Rightarrow> (case union_results rs of Inl e \<Rightarrow> Inl e | Inr B \<Rightarrow> Inr (A \<union> B)))"

text \<open>The keys of \<open>__byctype\<close>: the categories of the children of a \<open>block\<close>.\<close>

definition byctype_keys :: "entity \<Rightarrow> ctype list" where
  "byctype_keys self = remdups (map (\<lambda>(key, child). ctype_of child) (children self))"

text \<open>
  The branch \<open>descend_into=False\<close>.  A \<open>block\<close> takes the keys of its category index,
  for \<open>active=True\<close> those for which \<open>components(ctype, active=True, descend_into=False)\<close>
  produces a first component; a \<open>StaticBlock\<close> takes the categories of its components.
\<close>

fun collect_ctypes_here :: "bool \<Rightarrow> entity \<Rightarrow> error + ctype set" where
  "collect_ctypes_here act (BlockNode i DynamicBlock a p cs) =
     (if \<not> act then Inr (set (byctype_keys (BlockNode i DynamicBlock a p cs)))
      else
        (case concat_results (map (\<lambda>ct.
                case components_list (Some ct) True False (BlockNode i DynamicBlock a p cs) of
                  Inl e \<Rightarrow> Inl e
                | Inr [] \<Rightarrow> Inr []
                | Inr (component # others) \<Rightarrow> Inr [ct])
              (byctype_keys (BlockNode i DynamicBlock a p cs))) of
           Inl e \<Rightarrow> Inl e
         | Inr cts \<Rightarrow> Inr (set cts)))"
| "collect_ctypes_here act (BlockNode i StaticBlock a p cs) =
     (case components_list None act False (BlockNode i StaticBlock a p cs) of
        Inl e \<Rightarrow> Inl e
      | Inr comps \<Rightarrow> Inr (set (map ctype_of comps)))"
| "collect_ctypes_here act x = Inl AttributeError"

fun collect_ctypes_set :: "bool \<Rightarrow> bool \<Rightarrow> entity \<Rightarrow> error + ctype set" where
  "collect_ctypes_set act descend_into (BlockNode i kd a p cs) =
     (if \<not> descend_into then collect_ctypes_here act (BlockNode i kd a p cs)
      else
        (case blocks_list act True (BlockNode i kd a p cs) of
           Inl e \<Rightarrow> Inl e
         | Inr blks \<Rightarrow> union_results (map (collect_ctypes_here act) blks)))"
| "collect_ctypes_set act descend_into x = Inl AttributeError"

subsection \<open>\<open>_block_base.generate_names\<close>\<close>

fun parent :: "entity \<Rightarrow> oid option" where
  "parent (Leaf i ct a p) = p"
| "parent (BlockNode i kd a p cs) = p"
| "parent (Container i ct a p nm cs) = p"

text \<open>
  The objects of a tree, and the object that an identity refers to (\<open>obj.parent\<close>
  dereferences the weak reference).
\<close>

fun nodes :: "entity \<Rightarrow> entity list" where
  "nodes (Leaf i ct a p) = [Leaf i ct a p]"
| "nodes (BlockNode i kd a p cs) = BlockNode i kd a p cs # concat (map (\<lambda>(key, child). nodes child) cs)"
| "nodes (Container i ct a p nm cs) =
     Container i ct a p nm cs # concat (map (\<lambda>(key, child). nodes child) cs)"

definition deref :: "entity \<Rightarrow> oid \<Rightarrow> entity option" where
  "deref root p = find (\<lambda>x. ident x = p) (nodes root)"

text \<open>The delimiter and the entry format that an object gives the names of its children.\<close>

fun storage_strings :: "entity \<Rightarrow> error + string \<times> string \<times> string" where
  "storage_strings (BlockNode i kd a p cs) = Inr (''.'', [], [])"
| "storage_strings (Container i ct a p nm cs) =
     Inr (child_storage_delimiter_string nm, child_storage_entry_string nm)"
| "storage_strings (Leaf i ct a p) = Inl AttributeError"

text \<open>
  The loop over the traversal.  \<open>names\<close> is a \<open>ComponentMap\<close>: a dictionary keyed by
  the identity of the object.
\<close>

fun names_loop ::
  "entity \<Rightarrow> (key option \<Rightarrow> string) \<Rightarrow> string \<Rightarrow> (key option \<times> entity) list \<Rightarrow>
   (oid \<rightharpoonup> string) \<Rightarrow> error + (oid \<rightharpoonup> string)" where
  "names_loop self convert name_prefix [] names = Inr names"
| "names_loop self convert name_prefix ((key, obj) # traversal) names =
     (case parent obj of
        None \<Rightarrow> Inl AttributeError
      | Some p \<Rightarrow>
         (case deref self p of
            None \<Rightarrow> Inl AttributeError
          | Some par \<Rightarrow>
             (case storage_strings par of
                Inl e \<Rightarrow> Inl e
              | Inr (delimiter, before, after) \<Rightarrow>
                  let name = before @ convert key @ after in
                  if ident par \<noteq> ident self then
                    (case names (ident par) of
                       None \<Rightarrow> Inl KeyError
                     | Some parent_name \<Rightarrow>
                         names_loop self convert name_prefix traversal
                           (names(ident obj \<mapsto> parent_name @ delimiter @ name)))
                  else names_loop self convert name_prefix traversal
                         (names(ident obj \<mapsto> name_prefix @ name)))))"

text \<open>
  \<open>six.next(traversal)\<close> drops the first item of the preorder traversal and raises
  \<open>StopIteration\<close> if there is none.
\<close>

fun generate_names_map ::
  "ctype option \<Rightarrow> bool \<Rightarrow> bool \<Rightarrow> (key option \<Rightarrow> string) \<Rightarrow> string \<Rightarrow> entity \<Rightarrow>
   error + (oid \<rightharpoonup> string)" where
  "generate_names_map ctype act descend_into convert name_prefix (BlockNode i kd a p cs) =
     (if act \<and> \<not> a then Inr Map.empty
      else
        (case (if descend_into then
                 (case preorder_items ctype act True None (BlockNode i kd a p cs) of
                    Inl e \<Rightarrow> Inl e
                  | Inr [] \<Rightarrow> Inl StopIteration
                  | Inr (root # rest) \<Rightarrow> Inr rest)
               else Inr (map (\<lambda>(key, child). (Some key, child))
                          (children_of (BlockNode i kd a p cs) ctype))) of
           Inl e \<Rightarrow> Inl e
         | Inr traversal \<Rightarrow>
             names_loop (BlockNode i kd a p cs) convert name_prefix traversal Map.empty))"
| "generate_names_map ctype act descend_into convert name_prefix x = Inl AttributeError"

subsection \<open>The methods with their arguments \<open>active\<close> and \<open>return_key\<close>\<close>

text \<open>
  An item of a traversal is the object, or with \<open>return_key=True\<close> the pair of its key
  and the object.  \<open>active\<close> is \<open>None\<close>, \<open>True\<close> or \<open>False\<close>; every method starts with
  \<open>assert active in (None, True)\<close>.
\<close>

datatype yielded = Obj entity | KeyObj "key option" entity

definition with_keys :: "bool \<Rightarrow> (key option \<times> entity) list \<Rightarrow> yielded list" where
  "with_keys return_key items =
     map (\<lambda>(key, obj). if return_key then KeyObj key obj else Obj obj) items"

definition active_arg_ok :: "bool option \<Rightarrow> bool" where
  "active_arg_ok active \<longleftrightarrow> active = None \<or> active = Some True"

definition preorder_traversal ::
  "ctype option \<Rightarrow> bool option \<Rightarrow> bool \<Rightarrow> bool \<Rightarrow> key option \<Rightarrow> entity \<Rightarrow> error + yielded list" where
  "preorder_traversal ctype active include_parent_blocks return_key root_key self =
     (if \<not> active_arg_ok active then Inl AssertionError
      else map_sum id (with_keys return_key)
             (preorder_items ctype (active = Some True) include_parent_blocks root_key self))"

definition postorder_traversal ::
  "ctype option \<Rightarrow> bool option \<Rightarrow> bool \<Rightarrow> bool \<Rightarrow> key option \<Rightarrow> entity \<Rightarrow> error + yielded list" where
  "postorder_traversal ctype active include_parent_blocks return_key root_key self =
     (if \<not> active_arg_ok active then Inl AssertionError
      else map_sum id (with_keys return_key)
             (postorder_items ctype (active = Some True) include_parent_blocks root_key self))"

definition components :: "ctype option \<Rightarrow> bool option \<Rightarrow> bool \<Rightarrow> entity \<Rightarrow> error + entity list" where
  "components ctype active descend_into self =
     (if \<not> active_arg_ok active then Inl AssertionError
      else components_list ctype (active = Some True) descend_into self)"

definition blocks :: "bool option \<Rightarrow> bool \<Rightarrow> entity \<Rightarrow> error + entity list" where
  "blocks active descend_into self =
     (if \<not> active_arg_ok active then Inl AssertionError
      else blocks_list (active = Some True) descend_into self)"

definition collect_ctypes :: "bool option \<Rightarrow> bool \<Rightarrow> entity \<Rightarrow> error + ctype set" where
  "collect_ctypes active descend_into self =
     (if \<not> active_arg_ok active then Inl AssertionError
      else collect_ctypes_set (active = Some True) descend_into self)"

definition generate_names ::
  "ctype option \<Rightarrow> bool option \<Rightarrow> bool \<Rightarrow> (key option \<Rightarrow> string) \<Rightarrow> string \<Rightarrow> entity \<Rightarrow>
   error + (oid \<rightharpoonup> string)" where
  "generate_names ctype active descend_into convert name_prefix self =
     (if \<not> active_arg_ok active then Inl AssertionError
      else generate_names_map ctype (active = Some True) descend_into convert name_prefix self)"

subsection \<open>The scenario of section 8 of the specification\<close>

text \<open>
  The root block \<open>M\<close> with the block \<open>B\<close> at key \<open>b\<close>, which holds the leaf \<open>x\<close> of category
  \<open>Var\<close> at key \<open>x\<close> and the deactivated leaf \<open>y\<close> of category \<open>Con\<close> at key \<open>y\<close>.
\<close>

definition x_leaf :: entity where
  "x_leaf = Leaf 2 (Ctype ''Var'') None (Some 1)"

definition y_leaf :: entity where
  "y_leaf = Leaf 3 (Ctype ''Con'') (Some False) (Some 1)"

definition B_block :: entity where
  "B_block = BlockNode 1 DynamicBlock True (Some 0) [(Name ''x'', x_leaf), (Name ''y'', y_leaf)]"

definition M_block :: entity where
  "M_block = BlockNode 0 DynamicBlock True None [(Name ''b'', B_block)]"

text \<open>\<open>str\<close> on keys: a name is its own text, a position its decimal numeral.\<close>

fun string_of_nat :: "nat \<Rightarrow> string" where
  "string_of_nat n =
     (if n < 10 then [char_of (48 + n)]
      else string_of_nat (n div 10) @ [char_of (48 + n mod 10)])"

fun str :: "key option \<Rightarrow> string" where
  "str (Some (Name s)) = s"
| "str (Some (Index n)) = string_of_nat n"
| "str None = ''None''"

subsection \<open>A block that holds an empty list\<close>

text \<open>
  The naming attributes of a list container (\<open>x[0]\<close>: no delimiter, the key in
  brackets), a list of category \<open>Var\<close> with no entry, and a block of either class whose
  only child is this list (\<open>b.v = variable_list()\<close>).
\<close>

definition list_naming :: naming where
  "list_naming = \<lparr>child_storage_delimiter_string = [], child_storage_entry_string = (''['', '']'')\<rparr>"

definition empty_list :: entity where
  "empty_list = Container 1 (Ctype ''Var'') None (Some 0) list_naming []"

definition block_with_empty_list :: "block_kind \<Rightarrow> entity" where
  "block_with_empty_list kd = BlockNode 0 kd True None [(Name ''v'', empty_list)]"

subsection \<open>A block that holds a list of blocks\<close>

text \<open>
  \<open>m.L = block_list(); m.L.append(block()); m.L[0].x = variable()\<close>: the root block,
  its list \<open>L\<close>, the block at position 0 of the list, and the leaf \<open>x\<close> of that block.
\<close>

definition list_x :: entity where
  "list_x = Leaf 3 (Ctype ''Var'') None (Some 2)"

definition list_entry :: entity where
  "list_entry = BlockNode 2 DynamicBlock True (Some 1) [(Name ''x'', list_x)]"

definition block_list_L :: entity where
  "block_list_L = Container 1 Block (Some True) (Some 0) list_naming [(Index 0, list_entry)]"

definition block_with_list :: entity where
  "block_with_list = BlockNode 0 DynamicBlock True None [(Name ''L'', block_list_L)]"

subsection \<open>The parts of the traversal loops, named\<close>

text \<open>
  The bodies of the loops of the two traversals, as functions of the item of the loop:
  what the traversal of a block produces for one child, and for one object of the
  traversal of a container of blocks.  The lemmas \<open>preorder_items_block\<close> and
  \<open>postorder_items_block\<close> below restate the two methods with them.
\<close>

definition pre_obj ::
  "ctype option \<Rightarrow> bool \<Rightarrow> bool \<Rightarrow> key option \<times> entity \<Rightarrow> error + (key option \<times> entity) list" where
  "pre_obj ctype act ipb = (\<lambda>(obj_key, obj).
     if \<not> is_component obj then
       (if ctype = None \<or> ctype = Some Block \<or> ipb then Inr [(obj_key, obj)] else Inr [])
     else preorder_items ctype act ipb obj_key obj)"

definition pre_child ::
  "ctype option \<Rightarrow> bool \<Rightarrow> bool \<Rightarrow> key \<times> entity \<Rightarrow> error + (key option \<times> entity) list" where
  "pre_child ctype act ipb = (\<lambda>(key, child).
     if ctype = None \<or> Some (ctype_of child) = ctype \<or> ctype_of child = Block then
       if \<not> act \<or> getattr_active child then
         if \<not> is_container child then Inr [(Some key, child)]
         else if \<not> is_component child then
           if ctype_of child = Block then
             concat_results (map (pre_obj ctype act ipb) (container_preorder act (Some key) child))
           else Inr (container_preorder act (Some key) child)
         else preorder_items ctype act ipb (Some key) child
       else Inr []
     else Inr [])"

definition post_obj ::
  "ctype option \<Rightarrow> bool \<Rightarrow> bool \<Rightarrow> key option \<times> entity \<Rightarrow> error + (key option \<times> entity) list" where
  "post_obj ctype act ipb = (\<lambda>(obj_key, obj).
     if \<not> is_component obj then
       (if ctype = None \<or> ctype = Some Block \<or> ipb then Inr [(obj_key, obj)] else Inr [])
     else postorder_items ctype act ipb obj_key obj)"

definition post_child ::
  "ctype option \<Rightarrow> bool \<Rightarrow> bool \<Rightarrow> key \<times> entity \<Rightarrow> error + (key option \<times> entity) list" where
  "post_child ctype act ipb = (\<lambda>(key, child).
     if ctype = None \<or> Some (ctype_of child) = ctype \<or> ctype_of child = Block then
       if \<not> act \<or> getattr_active child then
         if \<not> is_container child then Inr [(Some key, child)]
         else if \<not> is_component child then
           if ctype_of child = Block then
             concat_results (map (post_obj ctype act ipb) (container_postorder act (Some key) child))
           else Inr (container_postorder act (Some key) child)
         else postorder_items ctype act ipb (Some key) child
       else Inr []
     else Inr [])"

text \<open>What a block produces for itself, before its children or after them.\<close>

definition self_item ::
  "ctype option \<Rightarrow> bool \<Rightarrow> key option \<Rightarrow> entity \<Rightarrow> (key option \<times> entity) list" where
  "self_item ctype ipb root_key self =
     (if ipb \<or> ctype = None \<or> ctype = Some Block then [(root_key, self)] else [])"

text \<open>Results compared up to the order of what is produced.\<close>

definition same_items :: "error + 'a list \<Rightarrow> error + 'a list \<Rightarrow> bool" where
  "same_items r s \<longleftrightarrow> map_sum id mset r = map_sum id mset s"

text \<open>The object of an item, and the identities of the objects that a traversal produced.\<close>

fun entity_of :: "yielded \<Rightarrow> entity" where
  "entity_of (Obj obj) = obj"
| "entity_of (KeyObj key obj) = obj"

definition produced_ids :: "yielded list \<Rightarrow> oid set" where
  "produced_ids out = ident ` entity_of ` set out"

subsection \<open>Well-formed parent references\<close>

text \<open>
  In a tree every object but the root is stored in exactly one container, and its
  parent reference points to that container: \<open>parents_ok q e\<close> says so for the tree
  \<open>e\<close> whose root has the parent reference \<open>q\<close>.
\<close>

fun parents_ok :: "oid option \<Rightarrow> entity \<Rightarrow> bool" where
  "parents_ok q (Leaf i ct a p) = (p = q)"
| "parents_ok q (BlockNode i kd a p cs) =
     (p = q \<and> list_all (\<lambda>(key, child). parents_ok (Some i) child) cs)"
| "parents_ok q (Container i ct a p nm cs) =
     (p = q \<and> list_all (\<lambda>(key, child). parents_ok (Some i) child) cs)"

text \<open>
  The parent reference of an object is set and in the set \<open>S\<close>; a list of objects in
  which the parent of each object is in the set \<open>S\<close> or is an earlier object of the list.
\<close>

definition parent_in :: "oid set \<Rightarrow> entity \<Rightarrow> bool" where
  "parent_in S x = (case parent x of None \<Rightarrow> False | Some p \<Rightarrow> p \<in> S)"

fun parents_first :: "oid set \<Rightarrow> entity list \<Rightarrow> bool" where
  "parents_first S [] = True"
| "parents_first S (x # xs) = (parent_in S x \<and> parents_first (insert (ident x) S) xs)"

text \<open>
  What the traversal of a container of blocks stands for: a block for all objects of
  its subtree, a container for itself.
\<close>

definition expand :: "entity \<Rightarrow> entity list" where
  "expand obj = (if is_component obj then nodes obj else [obj])"

subsection \<open>The name of a visited object\<close>

text \<open>
  What the mapping \<open>names\<close> holds for an item of the traversal of \<open>self\<close>, by the
  container that the parent reference of the object points to:
  \<^item> the block \<open>self\<close>: the prefix, then the converted key;
  \<^item> another block: the name of that block, a dot, then the converted key;
  \<^item> a list or dictionary: the name of that container, its delimiter, then the
    converted key in its entry format.
\<close>

definition named ::
  "entity \<Rightarrow> (key option \<Rightarrow> string) \<Rightarrow> string \<Rightarrow> (oid \<rightharpoonup> string) \<Rightarrow> yielded \<Rightarrow> bool" where
  "named self convert name_prefix names item =
     (case item of
        Obj obj \<Rightarrow> False
      | KeyObj key obj \<Rightarrow>
          (case parent obj of
             None \<Rightarrow> False
           | Some p \<Rightarrow>
               (case deref self p of
                  None \<Rightarrow> False
                | Some (Leaf i ct a q) \<Rightarrow> False
                | Some (BlockNode i kd a q cs) \<Rightarrow>
                    if i = ident self then names (ident obj) = Some (name_prefix @ convert key)
                    else (case names i of
                            None \<Rightarrow> False
                          | Some parent_name \<Rightarrow>
                              names (ident obj) = Some (parent_name @ ''.'' @ convert key))
                | Some (Container i ct a q nm cs) \<Rightarrow>
                    (case names i of
                       None \<Rightarrow> False
                     | Some parent_name \<Rightarrow>
                         names (ident obj) =
                           Some (parent_name @ child_storage_delimiter_string nm
                                 @ fst (child_storage_entry_string nm) @ convert key
                                 @ snd (child_storage_entry_string nm))))))"

section \<open>Lemmas on the store\<close>

lemma update_absent: "map_of al k = None \<Longrightarrow> AList.update k v al = al @ [(k, v)]"
  by (induction al) (auto split: if_splits)

lemma update_append_last:
  "map_of al k = None \<Longrightarrow> AList.update k v (al @ [(k, w)]) = al @ [(k, v)]"
  by (induction al) (auto split: if_splits)

lemma set_parent_sel [simp]:
  "h_parent (set_parent h c p x) = (if x = c then p else h_parent (h x))"
  "h_ctype (set_parent h c p x) = h_ctype (h x)"
  "h_dict (set_parent h c p x) = h_dict (h x)"
  "h_order (set_parent h c p x) = h_order (h x)"
  "h_byctype (set_parent h c p x) = h_byctype (h x)"
  "obj.more (set_parent h c p x) = obj.more (h x)"
  by (simp_all add: set_parent_def)

lemma set_dict_sel [simp]:
  "h_parent (set_dict h b d x) = h_parent (h x)"
  "h_ctype (set_dict h b d x) = h_ctype (h x)"
  "h_dict (set_dict h b d x) = (if x = b then d else h_dict (h x))"
  "h_order (set_dict h b d x) = h_order (h x)"
  "h_byctype (set_dict h b d x) = h_byctype (h x)"
  "obj.more (set_dict h b d x) = obj.more (h x)"
  by (simp_all add: set_dict_def)

lemma set_order_sel [simp]:
  "h_parent (set_order h b d x) = h_parent (h x)"
  "h_ctype (set_order h b d x) = h_ctype (h x)"
  "h_dict (set_order h b d x) = h_dict (h x)"
  "h_order (set_order h b d x) = (if x = b then d else h_order (h x))"
  "h_byctype (set_order h b d x) = h_byctype (h x)"
  "obj.more (set_order h b d x) = obj.more (h x)"
  by (simp_all add: set_order_def)

lemma set_byctype_sel [simp]:
  "h_parent (set_byctype h b d x) = h_parent (h x)"
  "h_ctype (set_byctype h b d x) = h_ctype (h x)"
  "h_dict (set_byctype h b d x) = h_dict (h x)"
  "h_order (set_byctype h b d x) = h_order (h x)"
  "h_byctype (set_byctype h b d x) = (if x = b then d else h_byctype (h x))"
  "obj.more (set_byctype h b d x) = obj.more (h x)"
  by (simp_all add: set_byctype_def)

lemma delattr_unbound:
  "map_of (h_dict (h b)) n = None \<Longrightarrow> block_delattr h b n = (Some AttributeError, h)"
  by (simp add: block_delattr_def)

lemma delattr_plain:
  "map_of (h_dict (h b)) n = Some v \<Longrightarrow> \<not> is_categorized v \<Longrightarrow>
   block_delattr h b n = (None, super_delattr h b n)"
  by (cases v) (simp_all add: block_delattr_def)

lemma delattr_registered:
  assumes "map_of (h_dict (h b)) n = Some (Categorized c)"
    and "has_key n (h_order (h b))"
    and "map_of (h_byctype (h b)) (h_ctype (h c)) = Some bucket"
    and "has_key n bucket"
  shows "block_delattr h b n = (None, detached h b n c)"
proof -
  have "snd (block_delattr h b n) = detached h b n c"
    using assms
    by (intro ext obj.equality)
       (simp_all add: block_delattr_def Let_def detached_def super_delattr_def update_conv' delete_update_same)
  moreover have "fst (block_delattr h b n) = None"
    using assms by (simp add: block_delattr_def Let_def)
  ultimately show ?thesis
    by (simp add: prod_eq_iff)
qed

lemma setattr_unbound:
  assumes "h_parent (h c) = None" and "map_of (h_dict (h b)) n = None"
  shows "block_setattr h b n (Categorized c) = (None, [], attached h b n c)"
proof -
  have "snd (snd (block_setattr h b n (Categorized c))) = attached h b n c"
    using assms
    by (intro ext obj.equality)
       (simp_all add: block_setattr_def Let_def attached_def has_key_def super_setattr_def
          update_conv' update_absent update_append_last map_add_def split: option.splits)
  moreover have "fst (block_setattr h b n (Categorized c)) = None"
    "fst (snd (block_setattr h b n (Categorized c))) = []"
    using assms by (simp_all add: block_setattr_def has_key_def Let_def)
  ultimately show ?thesis
    by (simp add: prod_eq_iff)
qed


lemma set_update_distinct:
  "distinct (map fst al) \<Longrightarrow> set (AList.update k v al) = insert (k, v) {p \<in> set al. fst p \<noteq> k}"
  by (induction al) (auto simp: rev_image_eqI)

lemma set_delete: "set (AList.delete k al) = {p \<in> set al. fst p \<noteq> k}"
  by (auto simp: AList.delete_eq)

lemma distinct_snd_delete: "distinct (map snd al) \<Longrightarrow> distinct (map snd (AList.delete k al))"
  by (simp add: AList.delete_eq distinct_map_filter)

lemma delete_filter: "AList.delete k (filter P al) = filter P (AList.delete k al)"
  by (induction al) (auto simp: AList.delete_eq)

lemma has_key_iff: "has_key k al \<longleftrightarrow> k \<in> fst ` set al"
  by (simp add: has_key_def map_of_eq_None_iff)

lemma filter_delete_other:
  assumes "distinct (map fst al)" "(n, c) \<in> set al" "\<not> P (n, c)"
  shows "filter P (AList.delete n al) = filter P al"
  using assms
proof (induction al)
  case Nil
  then show ?case by simp
next
  case (Cons p al)
  show ?case
  proof (cases "fst p = n")
    case True
    with Cons.prems have "p = (n, c)"
      by (cases p) (auto simp: rev_image_eqI)
    moreover have "n \<notin> fst ` set al"
      using Cons.prems True by auto
    ultimately show ?thesis
      using Cons.prems by simp
  next
    case False
    with Cons show ?thesis by auto
  qed
qed

lemma detached_inv:
  assumes inv: "heap_inv h" and bound: "map_of (h_dict (h b)) n = Some (Categorized c)"
  shows "heap_inv (detached h b n c)"
proof -
  let ?O = "h_order (h b)" and ?B = "h_byctype (h b)" and ?ct = "h_ctype (h c)"
  let ?h' = "detached h b n c"
  have b: "block_inv h b" using inv by (simp add: heap_inv_def)
  have dO: "distinct (map fst ?O)" and dS: "distinct (map snd ?O)" and dB: "distinct (map fst ?B)"
    using b by (simp_all add: block_inv_def)
  have buckets: "\<And>ct bucket. (ct, bucket) \<in> set ?B \<Longrightarrow>
       bucket \<noteq> [] \<and> bucket = filter (\<lambda>(n, e). h_ctype (h e) = ct) ?O"
    using b unfolding block_inv_def by blast
  have entries: "\<And>n e. (n, e) \<in> set ?O \<Longrightarrow>
       has_key (h_ctype (h e)) ?B \<and> map_of (h_dict (h b)) n = Some (Categorized e) \<and> h_parent (h e) = Some b"
    using b unfolding block_inv_def by blast
  have attrs: "\<And>n e. map_of (h_dict (h b)) n = Some (Categorized e) \<Longrightarrow> (n, e) \<in> set ?O"
    using b unfolding block_inv_def by blast
  have nc: "(n, c) \<in> set ?O" using attrs bound by blast
  have pc: "h_parent (h c) = Some b" using entries nc by blast
  obtain bk where bk: "(?ct, bk) \<in> set ?B"
    using entries [OF nc] by (auto simp: has_key_iff)
  have bk_eq: "bk = filter (\<lambda>(n, e). h_ctype (h e) = ?ct) ?O" using buckets bk by blast
  have mbk: "map_of ?B ?ct = Some bk" using dB bk by simp
  let ?bk' = "AList.delete n bk"
  have bk'_eq: "?bk' = filter (\<lambda>(n, e). h_ctype (h e) = ?ct) (AList.delete n ?O)"
    by (simp add: bk_eq delete_filter)
  have ct_same [simp]: "\<And>x. h_ctype (?h' x) = h_ctype (h x)"
    by (simp add: detached_def)
  have O': "h_order (?h' b) = AList.delete n ?O"
    by (simp add: detached_def)
  have B': "h_byctype (?h' b) = (if ?bk' = [] then AList.delete ?ct ?B else AList.update ?ct ?bk' ?B)"
    by (simp add: detached_def mbk)
  have D': "h_dict (?h' b) = AList.delete n (h_dict (h b))"
    by (simp add: detached_def)
  have other: "\<And>n' e. (n', e) \<in> set (AList.delete n ?O) \<Longrightarrow> n' \<noteq> n \<and> e \<noteq> c \<and> (n', e) \<in> set ?O"
  proof -
    fix n' e assume "(n', e) \<in> set (AList.delete n ?O)"
    then have 1: "n' \<noteq> n" "(n', e) \<in> set ?O" by (auto simp: set_delete)
    have "e \<noteq> c"
    proof
      assume "e = c"
      with 1 nc dS have "n' = n"
        by (metis distinct_map inj_onD snd_conv prod.inject)
      with 1 show False by simp
    qed
    with 1 show "n' \<noteq> n \<and> e \<noteq> c \<and> (n', e) \<in> set ?O" by simp
  qed
  have "block_inv ?h' b'" for b'
  proof (cases "b' = b")
    case True
    have 1: "distinct (map fst (h_order (?h' b)))" by (simp add: O' distinct_delete dO)
    have 2: "distinct (map snd (h_order (?h' b)))" by (simp add: O' distinct_snd_delete dS)
    have 3: "distinct (map fst (h_byctype (?h' b)))"
      by (simp add: B' distinct_delete distinct_update dB)
    have 4: "bucket \<noteq> [] \<and> bucket = filter (\<lambda>(n, e). h_ctype (?h' e) = ct) (h_order (?h' b))"
      if "(ct, bucket) \<in> set (h_byctype (?h' b))" for ct bucket
    proof (cases "ct = ?ct")
      case True
      with that have "?bk' \<noteq> []"
        by (auto simp: B' set_delete split: if_splits)
      with that True have "bucket = ?bk'"
        by (auto simp: B' set_update_distinct dB)
      with \<open>?bk' \<noteq> []\<close> True show ?thesis
        by (simp add: O' bk'_eq)
    next
      case False
      with that have in_B: "(ct, bucket) \<in> set ?B"
        by (auto simp: B' set_delete set_update_distinct dB split: if_splits)
      have "filter (\<lambda>(n, e). h_ctype (h e) = ct) (AList.delete n ?O)
            = filter (\<lambda>(n, e). h_ctype (h e) = ct) ?O"
        using False by (intro filter_delete_other [OF dO nc]) simp
      with buckets [OF in_B] show ?thesis
        unfolding O' ct_same by metis
    qed
    have 5: "has_key (h_ctype (?h' e)) (h_byctype (?h' b)) \<and>
             map_of (h_dict (?h' b)) n' = Some (Categorized e) \<and> h_parent (?h' e) = Some b"
      if "(n', e) \<in> set (h_order (?h' b))" for n' e
    proof -
      from that have o: "n' \<noteq> n" "e \<noteq> c" "(n', e) \<in> set ?O"
        using other by (simp_all add: O')
      have "has_key (h_ctype (h e)) (h_byctype (?h' b))"
      proof (cases "h_ctype (h e) = ?ct")
        case True
        with that have "(n', e) \<in> set ?bk'"
          by (simp add: bk'_eq O')
        then have "?bk' \<noteq> []" by auto
        then show ?thesis
          by (simp add: B' has_key_iff dom_update True)
      next
        case False
        then show ?thesis
          using entries [OF o(3)]
          by (auto simp: B' has_key_def update_conv' delete_conv')
      qed
      moreover have "map_of (h_dict (?h' b)) n' = Some (Categorized e)"
        using entries [OF o(3)] o(1) by (simp add: D')
      moreover have "h_parent (?h' e) = Some b"
        using entries [OF o(3)] o(2) by (simp add: detached_def)
      ultimately show ?thesis by simp
    qed
    have 6: "(n', e) \<in> set (h_order (?h' b))"
      if "map_of (h_dict (?h' b)) n' = Some (Categorized e)" for n' e
    proof -
      from that have "n' \<noteq> n"
        by (auto simp: D' delete_conv')
      with that have "map_of (h_dict (h b)) n' = Some (Categorized e)"
        by (simp add: D')
      with \<open>n' \<noteq> n\<close> show ?thesis
        using attrs by (auto simp: O' set_delete)
    qed
    show ?thesis
      unfolding True block_inv_def using 1 2 3 4 5 6 by blast
  next
    case False
    have inv': "block_inv h b'" using inv by (simp add: heap_inv_def)
    have same: "h_order (?h' b') = h_order (h b')" "h_byctype (?h' b') = h_byctype (h b')"
      "h_dict (?h' b') = h_dict (h b')"
      using False by (simp_all add: detached_def)
    have par: "h_parent (?h' e) = Some b'" if "(n', e) \<in> set (h_order (h b'))" for n' e
    proof -
      from that inv' have p: "h_parent (h e) = Some b'"
        unfolding block_inv_def by blast
      with pc False have "e \<noteq> c" by auto
      with p show ?thesis by (simp add: detached_def)
    qed
    show ?thesis
      using inv' par unfolding block_inv_def same ct_same by blast
  qed
  then show ?thesis by (simp add: heap_inv_def)
qed

lemma inv_registered:
  assumes "block_inv h b" and "map_of (h_dict (h b)) n = Some (Categorized c)"
  shows "has_key n (h_order (h b))"
    and "\<exists>bucket. map_of (h_byctype (h b)) (h_ctype (h c)) = Some bucket \<and> has_key n bucket"
proof -
  have nc: "(n, c) \<in> set (h_order (h b))"
    using assms unfolding block_inv_def by blast
  then show "has_key n (h_order (h b))"
    by (force simp: has_key_iff)
  from nc have "has_key (h_ctype (h c)) (h_byctype (h b))"
    using assms(1) unfolding block_inv_def by blast
  then obtain bucket where m: "map_of (h_byctype (h b)) (h_ctype (h c)) = Some bucket"
    by (auto simp: has_key_def)
  then have "(h_ctype (h c), bucket) \<in> set (h_byctype (h b))"
    by (rule map_of_SomeD)
  then have "bucket = filter (\<lambda>(n, e). h_ctype (h e) = h_ctype (h c)) (h_order (h b))"
    using assms(1) unfolding block_inv_def by blast
  with nc have "(n, c) \<in> set bucket" by simp
  then have "has_key n bucket" by (force simp: has_key_iff)
  with m show "\<exists>bucket. map_of (h_byctype (h b)) (h_ctype (h c)) = Some bucket \<and> has_key n bucket"
    by blast
qed

lemma attached_inv:
  assumes inv: "heap_inv h" and par: "h_parent (h c) = None"
    and unbound: "map_of (h_dict (h b)) n = None"
  shows "heap_inv (attached h b n c)"
proof -
  let ?O = "h_order (h b)" and ?B = "h_byctype (h b)" and ?ct = "h_ctype (h c)"
  let ?h' = "attached h b n c"
  have b: "block_inv h b" using inv by (simp add: heap_inv_def)
  have dO: "distinct (map fst ?O)" and dS: "distinct (map snd ?O)" and dB: "distinct (map fst ?B)"
    using b by (simp_all add: block_inv_def)
  have buckets: "\<And>ct bucket. (ct, bucket) \<in> set ?B \<Longrightarrow>
       bucket \<noteq> [] \<and> bucket = filter (\<lambda>(n, e). h_ctype (h e) = ct) ?O"
    using b unfolding block_inv_def by blast
  have entries: "\<And>n e. (n, e) \<in> set ?O \<Longrightarrow>
       has_key (h_ctype (h e)) ?B \<and> map_of (h_dict (h b)) n = Some (Categorized e) \<and> h_parent (h e) = Some b"
    using b unfolding block_inv_def by blast
  have attrs: "\<And>n e. map_of (h_dict (h b)) n = Some (Categorized e) \<Longrightarrow> (n, e) \<in> set ?O"
    using b unfolding block_inv_def by blast
  have n_new: "n \<notin> fst ` set ?O"
    using entries unbound by force
  have c_new: "c \<notin> snd ` set ?O"
    using entries par by force
  have mO: "map_of ?O n = None"
    using n_new by (simp add: map_of_eq_None_iff)
  have ct_same [simp]: "\<And>x. h_ctype (?h' x) = h_ctype (h x)"
    by (simp add: attached_def)
  have O': "h_order (?h' b) = ?O @ [(n, c)]"
    by (simp add: attached_def update_absent mO)
  have D': "h_dict (?h' b) = AList.update n (Categorized c) (h_dict (h b))"
    by (simp add: attached_def)
  have fO': "filter (\<lambda>(n, e). h_ctype (h e) = ct) (?O @ [(n, c)]) =
      filter (\<lambda>(n, e). h_ctype (h e) = ct) ?O @ (if ct = ?ct then [(n, c)] else [])" for ct
    by auto
  have B': "set (h_byctype (?h' b)) =
      insert (?ct, filter (\<lambda>(n, e). h_ctype (h e) = ?ct) ?O @ [(n, c)]) {p \<in> set ?B. fst p \<noteq> ?ct}"
    and dB': "distinct (map fst (h_byctype (?h' b)))"
  proof -
    show "set (h_byctype (?h' b)) =
      insert (?ct, filter (\<lambda>(n, e). h_ctype (h e) = ?ct) ?O @ [(n, c)]) {p \<in> set ?B. fst p \<noteq> ?ct}"
    proof (cases "map_of ?B ?ct")
      case None
      then have nk: "?ct \<notin> fst ` set ?B"
        by (simp add: map_of_eq_None_iff)
      have "filter (\<lambda>(n, e). h_ctype (h e) = ?ct) ?O = []"
      proof (rule ccontr)
        assume "filter (\<lambda>(n, e). h_ctype (h e) = ?ct) ?O \<noteq> []"
        then obtain n' e where "(n', e) \<in> set ?O" "h_ctype (h e) = ?ct"
          by (auto simp: filter_empty_conv)
        with entries have "has_key ?ct ?B" by metis
        with None show False by (simp add: has_key_def)
      qed
      with None nk show ?thesis
        by (force simp: attached_def)
    next
      case (Some bk)
      then have "(?ct, bk) \<in> set ?B" by (rule map_of_SomeD)
      then have bk: "bk = filter (\<lambda>(n, e). h_ctype (h e) = ?ct) ?O"
        using buckets by blast
      have "map_of bk n = None"
        using n_new by (force simp: bk map_of_eq_None_iff)
      then have "AList.update n c bk = bk @ [(n, c)]"
        by (rule update_absent)
      with Some bk show ?thesis
        by (simp add: attached_def set_update_distinct dB)
    qed
    show "distinct (map fst (h_byctype (?h' b)))"
    proof (cases "map_of ?B ?ct")
      case None
      then have "?ct \<notin> fst ` set ?B"
        by (simp add: map_of_eq_None_iff)
      with None show ?thesis
        by (simp add: attached_def dB)
    next
      case (Some bk)
      then show ?thesis
        by (simp add: attached_def dB distinct_update)
    qed
  qed
  have "block_inv ?h' b'" for b'
  proof (cases "b' = b")
    case True
    have 1: "distinct (map fst (h_order (?h' b)))"
      using n_new dO by (simp add: O')
    have 2: "distinct (map snd (h_order (?h' b)))"
      using c_new dS by (simp add: O')
    have 4: "bucket \<noteq> [] \<and> bucket = filter (\<lambda>(n, e). h_ctype (?h' e) = ct) (h_order (?h' b))"
      if "(ct, bucket) \<in> set (h_byctype (?h' b))" for ct bucket
    proof (cases "ct = ?ct")
      case True
      with that have "bucket = filter (\<lambda>(n, e). h_ctype (h e) = ?ct) ?O @ [(n, c)]"
        unfolding B' by auto
      with True show ?thesis
        unfolding O' ct_same fO' by simp
    next
      case False
      with that have "(ct, bucket) \<in> set ?B"
        unfolding B' by auto
      from buckets [OF this] have "bucket \<noteq> []"
        and "bucket = filter (\<lambda>(n, e). h_ctype (h e) = ct) ?O"
        by blast+
      with False show ?thesis
        unfolding O' ct_same fO' by auto
    qed
    have keys: "fst ` set (h_byctype (?h' b)) = insert ?ct (fst ` set ?B)"
      unfolding B' by force
    have 5: "has_key (h_ctype (?h' e)) (h_byctype (?h' b)) \<and>
             map_of (h_dict (?h' b)) n' = Some (Categorized e) \<and> h_parent (?h' e) = Some b"
      if "(n', e) \<in> set (h_order (?h' b))" for n' e
    proof (cases "(n', e) = (n, c)")
      case True
      then show ?thesis
        by (simp add: has_key_iff keys D' update_conv') (simp add: attached_def)
    next
      case False
      with that have o: "(n', e) \<in> set ?O" by (auto simp: O')
      then have "n' \<noteq> n" "e \<noteq> c"
        using n_new c_new by force+
      with entries [OF o] show ?thesis
        by (simp add: has_key_iff keys D' update_conv') (simp add: attached_def)
    qed
    have 6: "(n', e) \<in> set (h_order (?h' b))"
      if "map_of (h_dict (?h' b)) n' = Some (Categorized e)" for n' e
      using that attrs by (auto simp: D' O' update_conv' split: if_splits)
    show ?thesis
      unfolding True block_inv_def using 1 2 dB' 4 5 6 by blast
  next
    case False
    have inv': "block_inv h b'" using inv by (simp add: heap_inv_def)
    have same: "h_order (?h' b') = h_order (h b')" "h_byctype (?h' b') = h_byctype (h b')"
      "h_dict (?h' b') = h_dict (h b')"
      using False by (simp_all add: attached_def)
    have parent: "h_parent (?h' e) = Some b'" if "(n', e) \<in> set (h_order (h b'))" for n' e
    proof -
      from that inv' have p: "h_parent (h e) = Some b'"
        unfolding block_inv_def by blast
      with par have "e \<noteq> c" by auto
      with p show ?thesis by (simp add: attached_def)
    qed
    show ?thesis
      using inv' parent unfolding block_inv_def same ct_same by blast
  qed
  then show ?thesis by (simp add: heap_inv_def)
qed

lemma super_delattr_inv:
  assumes inv: "heap_inv h" and plain: "map_of (h_dict (h b)) n = Some v" "\<not> is_categorized v"
  shows "heap_inv (super_delattr h b n)"
proof -
  have v: "v \<noteq> Categorized e" for e
    using plain(2) by auto
  have "block_inv (super_delattr h b n) b'" for b'
  proof -
    have inv': "block_inv h b'" using inv by (simp add: heap_inv_def)
    have d: "(map_of (h_dict (super_delattr h b n b')) n' = Some (Categorized e))
             = (map_of (h_dict (h b')) n' = Some (Categorized e))" for n' e
      using plain(1) v by (auto simp: super_delattr_def delete_conv')
    have sel: "h_order (super_delattr h b n x) = h_order (h x)"
      "h_byctype (super_delattr h b n x) = h_byctype (h x)"
      "h_ctype (super_delattr h b n x) = h_ctype (h x)"
      "h_parent (super_delattr h b n x) = h_parent (h x)" for x
      by (simp_all add: super_delattr_def)
    show ?thesis
      using inv' unfolding block_inv_def sel d .
  qed
  then show ?thesis by (simp add: heap_inv_def)
qed

lemma delattr_inv:
  assumes "heap_inv h"
  shows "heap_inv (snd (block_delattr h b n))"
proof (cases "map_of (h_dict (h b)) n")
  case None
  with assms show ?thesis by (simp add: delattr_unbound)
next
  case (Some v)
  show ?thesis
  proof (cases "is_categorized v")
    case True
    then obtain c where v: "v = Categorized c"
      by (cases v) simp_all
    have b: "block_inv h b" using assms by (simp add: heap_inv_def)
    from inv_registered [OF b] Some v
    obtain bucket where "has_key n (h_order (h b))"
      "map_of (h_byctype (h b)) (h_ctype (h c)) = Some bucket" "has_key n bucket"
      by blast
    with Some v have "block_delattr h b n = (None, detached h b n c)"
      using delattr_registered [of h b n c bucket] by simp
    with detached_inv [OF assms, of b n c] Some v show ?thesis by simp
  next
    case False
    with Some have "block_delattr h b n = (None, super_delattr h b n)"
      by (rule delattr_plain)
    with super_delattr_inv [OF assms Some False] show ?thesis by simp
  qed
qed

lemma setattr_has_parent:
  assumes "h_parent (h e) \<noteq> None"
  shows "block_setattr h b n (Categorized e) =
           (if map_of (h_dict (h b)) n = Some (Categorized e)
            then (None, [], h) else (Some ValueError, [], h))"
proof -
  from assms obtain p where p: "h_parent (h e) = Some p"
    by auto
  show ?thesis
  proof (cases "map_of (h_dict (h b)) n = Some (Categorized e)")
    case True
    then have "AList.update n (Categorized e) (h_dict (h b)) = h_dict (h b)"
      by (rule update_triv)
    then have "super_setattr h b n (Categorized e) = h"
      by (simp add: super_setattr_def set_dict_def)
    with True show ?thesis
      by (simp add: block_setattr_def has_key_def p)
  next
    case False
    then show ?thesis
      by (simp add: block_setattr_def has_key_def p)
  qed
qed

lemma setattr_rebind:
  assumes "h_parent (h c) = None" and "has_key n (h_dict (h b))"
    and "block_delattr h b n = (None, h0)"
    and "h_parent (h0 c) = None" and "map_of (h_dict (h0 b)) n = None"
  shows "block_setattr h b n (Categorized c) = (None, [ImplicitReplaceWarning n], attached h0 b n c)"
proof -
  have "block_setattr h0 b n (Categorized c) = (None, [], attached h0 b n c)"
    using assms(4,5) by (rule setattr_unbound)
  moreover have "block_setattr h b n (Categorized c) =
      (None, [ImplicitReplaceWarning n], snd (snd (block_setattr h0 b n (Categorized c))))"
    using assms by (simp add: block_setattr_def has_key_def Let_def)
  ultimately show ?thesis by simp
qed

lemma setattr_parentless:
  assumes inv: "heap_inv h" and par: "h_parent (h c) = None"
  shows "heap_inv (before_attach h b n)"
    and "h_parent (before_attach h b n c) = None"
    and "map_of (h_dict (before_attach h b n b)) n = None"
    and "has_key n (h_dict (h b)) \<Longrightarrow> fst (block_delattr h b n) = None"
    and "block_setattr h b n (Categorized c) =
          (None, if has_key n (h_dict (h b)) then [ImplicitReplaceWarning n] else [],
           attached (before_attach h b n) b n c)"
proof -
  let ?h0 = "before_attach h b n"
  have all: "heap_inv ?h0 \<and> h_parent (?h0 c) = None \<and> map_of (h_dict (?h0 b)) n = None
     \<and> (has_key n (h_dict (h b)) \<longrightarrow> fst (block_delattr h b n) = None)
     \<and> block_setattr h b n (Categorized c) =
          (None, if has_key n (h_dict (h b)) then [ImplicitReplaceWarning n] else [],
           attached ?h0 b n c)"
  proof (cases "map_of (h_dict (h b)) n")
    case None
    then have "?h0 = h" by (simp add: before_attach_def has_key_def)
    moreover have "\<not> has_key n (h_dict (h b))"
      using None by (simp add: has_key_def)
    ultimately show ?thesis
      using None inv par setattr_unbound [OF par None] by (simp only: if_False simp_thms)
  next
    case (Some v)
    then have k: "has_key n (h_dict (h b))" by (simp add: has_key_def)
    have d: "block_delattr h b n = (None, ?h0) \<and> heap_inv ?h0 \<and> h_parent (?h0 c) = None
        \<and> map_of (h_dict (?h0 b)) n = None"
    proof (cases "is_categorized v")
      case True
      then obtain old where v: "v = Categorized old"
        by (cases v) simp_all
      have b: "block_inv h b" using inv by (simp add: heap_inv_def)
      from inv_registered [OF b] Some v
      obtain bucket where "has_key n (h_order (h b))"
        "map_of (h_byctype (h b)) (h_ctype (h old)) = Some bucket" "has_key n bucket"
        by blast
      with Some v have del: "block_delattr h b n = (None, detached h b n old)"
        using delattr_registered [of h b n old bucket] by simp
      then have h0: "?h0 = detached h b n old"
        using k by (simp add: before_attach_def)
      have "heap_inv (detached h b n old)"
        using inv Some v by (simp add: detached_inv)
      moreover have "h_parent (detached h b n old c) = None"
        using par by (simp add: detached_def)
      moreover have "map_of (h_dict (detached h b n old b)) n = None"
        by (simp add: detached_def delete_conv')
      ultimately show ?thesis
        unfolding h0 using del by blast
    next
      case False
      with Some have del: "block_delattr h b n = (None, super_delattr h b n)"
        by (rule delattr_plain)
      then have h0: "?h0 = super_delattr h b n"
        using k by (simp add: before_attach_def)
      have "heap_inv (super_delattr h b n)"
        using inv Some False by (rule super_delattr_inv)
      moreover have "h_parent (super_delattr h b n c) = None"
        using par by (simp add: super_delattr_def)
      moreover have "map_of (h_dict (super_delattr h b n b)) n = None"
        by (simp add: super_delattr_def delete_conv')
      ultimately show ?thesis
        unfolding h0 using del by blast
    qed
    then have d1: "block_delattr h b n = (None, ?h0)" and d2: "heap_inv ?h0"
      and d3: "h_parent (?h0 c) = None" and d4: "map_of (h_dict (?h0 b)) n = None"
      by blast+
    have "block_setattr h b n (Categorized c) = (None, [ImplicitReplaceWarning n], attached ?h0 b n c)"
      using par k d1 d3 d4 by (rule setattr_rebind)
    moreover have "fst (block_delattr h b n) = None"
      by (subst d1) simp
    ultimately show ?thesis
      using d2 d3 d4 k by (simp only: if_True simp_thms)
  qed
  from all show "heap_inv ?h0" by simp
  from all show "h_parent (?h0 c) = None" by simp
  from all show "map_of (h_dict (?h0 b)) n = None" by simp
  from all show "has_key n (h_dict (h b)) \<Longrightarrow> fst (block_delattr h b n) = None" by simp
  from all show "block_setattr h b n (Categorized c) =
          (None, if has_key n (h_dict (h b)) then [ImplicitReplaceWarning n] else [],
           attached ?h0 b n c)" by simp
qed

lemma setattr_inv:
  assumes "heap_inv h"
  shows "heap_inv (snd (snd (block_setattr h b n (Categorized c))))"
proof (cases "h_parent (h c)")
  case None
  have "heap_inv (attached (before_attach h b n) b n c)"
    using setattr_parentless(1-3) [OF assms None] by (rule attached_inv)
  then show ?thesis
    by (subst setattr_parentless(5) [OF assms None]) simp
next
  case (Some p)
  then have "h_parent (h c) \<noteq> None" by simp
  with setattr_has_parent [of h c b n] assms show ?thesis by simp
qed

lemma fresh_inv: "heap_inv (fresh ct)"
  by (simp add: heap_inv_def block_inv_def fresh_def)

lemma reachable_inv: "reachable h \<Longrightarrow> heap_inv h"
  by (induction rule: reachable.induct) (simp_all add: fresh_inv setattr_inv delattr_inv)

lemma block_inv_indices_agree:
  assumes "block_inv h b"
  shows "indices_agree h b"
proof -
  let ?O = "h_order (h b)" and ?B = "h_byctype (h b)"
  have buckets: "\<And>ct bucket. (ct, bucket) \<in> set ?B \<Longrightarrow>
       bucket \<noteq> [] \<and> bucket = filter (\<lambda>(n, e). h_ctype (h e) = ct) ?O"
    using assms unfolding block_inv_def by blast
  have dO: "distinct (map fst ?O)" "distinct (map snd ?O)" "distinct (map fst ?B)"
    using assms by (simp_all add: block_inv_def)
  have 1: "bucket \<noteq> [] \<and> distinct (map fst bucket) \<and>
         (\<forall>(n, e) \<in> set bucket. h_ctype (h e) = ct \<and> (n, e) \<in> set ?O)"
    if "(ct, bucket) \<in> set ?B" for ct bucket
  proof -
    from buckets [OF that] have ne: "bucket \<noteq> []"
      and eq: "bucket = filter (\<lambda>(n, e). h_ctype (h e) = ct) ?O" by blast+
    have "distinct (map fst (filter (\<lambda>(n, e). h_ctype (h e) = ct) ?O))"
      using dO(1) by (rule distinct_map_filter)
    with eq have "distinct (map fst bucket)" by simp
    moreover have "\<forall>(n, e) \<in> set bucket. h_ctype (h e) = ct \<and> (n, e) \<in> set ?O"
      by (subst eq) auto
    ultimately show ?thesis using ne by blast
  qed
  have 2: "\<exists>bucket. (h_ctype (h e), bucket) \<in> set ?B \<and> (n, e) \<in> set bucket"
    if "(n, e) \<in> set ?O" for n e
  proof -
    from that assms have "has_key (h_ctype (h e)) ?B"
      unfolding block_inv_def by blast
    then obtain bucket where m: "(h_ctype (h e), bucket) \<in> set ?B"
      by (auto simp: has_key_def dest: map_of_SomeD)
    from buckets [OF this] that have "(n, e) \<in> set bucket" by auto
    with m show ?thesis by blast
  qed
  have all_buckets: "\<forall>(ct, bucket) \<in> set ?B.
         bucket \<noteq> [] \<and> distinct (map fst bucket) \<and>
         (\<forall>(n, e) \<in> set bucket. h_ctype (h e) = ct \<and> (n, e) \<in> set ?O)"
    using 1 by fast
  have all_entries: "\<forall>(n, e) \<in> set ?O.
         \<exists>bucket. (h_ctype (h e), bucket) \<in> set ?B \<and> (n, e) \<in> set bucket"
    using 2 by fast
  show ?thesis
    unfolding indices_agree_def by (intro conjI dO all_buckets all_entries)
qed

lemma delattr_ctype [simp]: "h_ctype (snd (block_delattr h b n) x) = h_ctype (h x)"
  by (simp add: block_delattr_def Let_def super_delattr_def split: option.splits pyval.splits)

lemma setattr_ctype [simp]: "h_ctype (snd (snd (block_setattr h b n v)) x) = h_ctype (h x)"
  by (simp add: block_setattr_def Let_def super_setattr_def split_beta
      split: option.splits pyval.splits)

lemma parentless_not_child:
  assumes "block_inv h b" and "h_parent (h e) = None"
  shows "e \<notin> snd ` set (h_order (h b))"
    and "\<And>ct bucket. (ct, bucket) \<in> set (h_byctype (h b)) \<Longrightarrow> e \<notin> snd ` set bucket"
proof -
  have entries: "\<And>n e. (n, e) \<in> set (h_order (h b)) \<Longrightarrow> h_parent (h e) = Some b"
    using assms(1) unfolding block_inv_def by blast
  show 1: "e \<notin> snd ` set (h_order (h b))"
  proof
    assume "e \<in> snd ` set (h_order (h b))"
    then obtain n where "(n, e) \<in> set (h_order (h b))" by auto
    from entries [OF this] assms(2) show False by simp
  qed
  fix ct bucket assume "(ct, bucket) \<in> set (h_byctype (h b))"
  with assms(1) have "bucket = filter (\<lambda>(n, e). h_ctype (h e) = ct) (h_order (h b))"
    unfolding block_inv_def by blast
  then have "set bucket \<subseteq> set (h_order (h b))" by auto
  with 1 show "e \<notin> snd ` set bucket" by blast
qed

lemma registered_child:
  assumes "block_inv h b" and "(n, e) \<in> set (h_order (h b))"
  shows "map_of (h_order (h b)) n = Some e"
    and "\<exists>bucket. map_of (h_byctype (h b)) (h_ctype (h e)) = Some bucket \<and> map_of bucket n = Some e"
proof -
  have ia: "indices_agree h b"
    using assms(1) by (rule block_inv_indices_agree)
  show "map_of (h_order (h b)) n = Some e"
    using ia assms(2) by (simp add: indices_agree_def)
  from ia assms(2) obtain bucket
    where m: "(h_ctype (h e), bucket) \<in> set (h_byctype (h b))" and i: "(n, e) \<in> set bucket"
    unfolding indices_agree_def by fast
  from ia m have "distinct (map fst bucket)"
    unfolding indices_agree_def by fast
  with i have "map_of bucket n = Some e" by simp
  moreover from ia m have "map_of (h_byctype (h b)) (h_ctype (h e)) = Some bucket"
    by (simp add: indices_agree_def)
  ultimately show "\<exists>bucket. map_of (h_byctype (h b)) (h_ctype (h e)) = Some bucket \<and> map_of bucket n = Some e"
    by blast
qed

section \<open>Lemmas on the traversals\<close>

lemma concat_results_InrD:
  "concat_results rs = Inr zs \<Longrightarrow> (\<forall>r \<in> set rs. \<not> isl r) \<and> zs = concat (map projr rs)"
proof (induction rs arbitrary: zs)
  case Nil
  then show ?case by simp
next
  case (Cons r rs)
  from Cons.prems obtain xs ys where r: "r = Inr xs" and rs: "concat_results rs = Inr ys"
    and zs: "zs = xs @ ys"
    by (auto split: sum.splits)
  from Cons.IH [OF rs] r zs show ?case by simp
qed

lemma concat_results_InrI:
  "\<forall>r \<in> set rs. \<not> isl r \<Longrightarrow> concat_results rs = Inr (concat (map projr rs))"
  by (induction rs) (auto split: sum.splits)

lemma concat_results_Inr_iff:
  "concat_results rs = Inr zs \<longleftrightarrow>
     (\<forall>r \<in> set rs. \<not> isl r) \<and> zs = concat (map projr rs)"
  using concat_results_InrD concat_results_InrI by fastforce

lemma concat_results_Inl:
  "concat_results rs = Inl e \<Longrightarrow> Inl e \<in> set rs"
  by (induction rs) (auto split: sum.splits)

lemma concat_results_all_Inr:
  "concat_results (map Inr xss) = Inr (concat xss)"
  by (induction xss) auto

lemma concat_results_cases:
  obtains (ok) "\<forall>r \<in> set rs. \<not> isl r" "concat_results rs = Inr (concat (map projr rs))"
  | (err) e where "Inl e \<in> set rs" "concat_results rs = Inl e"
proof (cases "concat_results rs")
  case (Inl e)
  then show ?thesis using err concat_results_Inl by blast
next
  case (Inr zs)
  then show ?thesis using ok by (simp add: concat_results_Inr_iff)
qed

lemma same_items_Inr [simp]: "same_items (Inr xs) (Inr ys) \<longleftrightarrow> mset xs = mset ys"
  by (simp add: same_items_def)

lemma same_items_Inl [simp]: "same_items (Inl e) s \<longleftrightarrow> s = Inl e"
  "same_items r (Inl e) \<longleftrightarrow> r = Inl e"
  by (cases s; auto simp: same_items_def) (cases r; auto simp: same_items_def)

lemma same_items_refl [simp]: "same_items r r"
  by (simp add: same_items_def)

lemma same_items_concat_results:
  assumes "\<And>x. x \<in> set xs \<Longrightarrow> same_items (f x) (g x)"
  shows "same_items (concat_results (map f xs)) (concat_results (map g xs))"
  using assms
proof (induction xs)
  case Nil
  then show ?case by simp
next
  case (Cons x xs)
  have 1: "same_items (f x) (g x)" using Cons.prems by simp
  have 2: "same_items (concat_results (map f xs)) (concat_results (map g xs))"
    using Cons by simp
  show ?case
  proof (cases "f x")
    case (Inl e)
    with 1 show ?thesis by simp
  next
    case fx: (Inr a)
    with 1 obtain b where gx: "g x = Inr b" and ab: "mset a = mset b"
      by (cases "g x") auto
    show ?thesis
    proof (cases "concat_results (map f xs)")
      case (Inl e)
      with 2 fx gx show ?thesis by simp
    next
      case (Inr c)
      with 2 obtain d where "concat_results (map g xs) = Inr d" "mset c = mset d"
        by (cases "concat_results (map g xs)") auto
      with Inr fx gx ab show ?thesis by simp
    qed
  qed
qed

lemma same_items_concat_results_perm:
  assumes perm: "mset xs = mset ys"
    and errs: "\<And>x e. x \<in> set xs \<Longrightarrow> f x = Inl e \<Longrightarrow> e = e0"
    and pointwise: "\<And>x. x \<in> set xs \<Longrightarrow> same_items (f x) (g x)"
  shows "same_items (concat_results (map f xs)) (concat_results (map g ys))"
proof -
  have sets: "set xs = set ys" using perm by (rule mset_eq_setD)
  have isl_eq: "\<And>x. x \<in> set xs \<Longrightarrow> isl (g x) = isl (f x)"
    using pointwise by (metis same_items_Inl(1) same_items_Inl(2) isl_def)
  show ?thesis
  proof (cases "\<exists>x \<in> set xs. isl (f x)")
    case True
    then obtain x where x: "x \<in> set xs" "isl (f x)" by blast
    have "concat_results (map f xs) = Inl e0"
    proof (cases "map f xs" rule: concat_results_cases)
      case ok
      with x show ?thesis by auto
    next
      case (err e)
      with errs show ?thesis by auto
    qed
    moreover have "concat_results (map g ys) = Inl e0"
    proof (cases "map g ys" rule: concat_results_cases)
      case ok
      with x sets isl_eq show ?thesis by auto
    next
      case (err e)
      then obtain y where y: "y \<in> set ys" "g y = Inl e" by auto
      with sets pointwise [of y] have "f y = Inl e" by simp
      with errs y sets err show ?thesis by auto
    qed
    ultimately show ?thesis by simp
  next
    case False
    then have f_ok: "\<forall>r \<in> set (map f xs). \<not> isl r" by auto
    from False sets isl_eq have g_ok: "\<forall>r \<in> set (map g ys). \<not> isl r" by auto
    have f_eq: "concat_results (map f xs) = Inr (concat (map projr (map f xs)))"
      using f_ok by (simp add: concat_results_Inr_iff)
    have g_eq: "concat_results (map g ys) = Inr (concat (map projr (map g ys)))"
      using g_ok by (simp add: concat_results_Inr_iff)
    have pw: "mset (projr (f x)) = mset (projr (g x))" if "x \<in> set xs" for x
    proof -
      from that False have "\<not> isl (f x)" by blast
      then obtain a where a: "f x = Inr a" by (cases "f x") auto
      with pointwise [OF that] obtain b where "g x = Inr b" "mset a = mset b"
        by (cases "g x") auto
      with a show ?thesis by simp
    qed
    have "mset (concat (map projr (map f xs))) = (\<Sum>x\<in>#mset xs. mset (projr (f x)))"
      by (simp add: mset_concat comp_def flip: sum_mset_sum_list)
    also have "\<dots> = (\<Sum>x\<in>#mset xs. mset (projr (g x)))"
      using pw by (intro arg_cong [where f = sum_mset] image_mset_cong) simp
    also have "\<dots> = mset (concat (map projr (map g ys)))"
      by (simp add: mset_concat comp_def perm flip: sum_mset_sum_list)
    finally show ?thesis
      by (simp add: f_eq g_eq)
  qed
qed

lemma preorder_items_block:
  "preorder_items ctype act ipb root_key (BlockNode i kd a p cs) =
     (if act \<and> \<not> a then Inr []
      else (case concat_results (map (pre_child ctype act ipb) cs) of
              Inl e \<Rightarrow> Inl e
            | Inr rest \<Rightarrow> Inr (self_item ctype ipb root_key (BlockNode i kd a p cs) @ rest)))"
  unfolding pre_child_def pre_obj_def self_item_def by simp

lemma postorder_items_block:
  "postorder_items ctype act ipb root_key (BlockNode i kd a p cs) =
     (if act \<and> \<not> a then Inr []
      else (case concat_results (map (post_child ctype act ipb) cs) of
              Inl e \<Rightarrow> Inl e
            | Inr rest \<Rightarrow> Inr (rest @ self_item ctype ipb root_key (BlockNode i kd a p cs))))"
  unfolding post_child_def post_obj_def self_item_def by simp

declare preorder_items.simps(1) [simp del] postorder_items.simps(1) [simp del]

lemma mset_concat_cong:
  "(\<And>x. x \<in> set xs \<Longrightarrow> mset (f x) = mset (g x)) \<Longrightarrow>
   mset (concat (map f xs)) = mset (concat (map g xs))"
  by (induction xs) auto

lemma container_traversals_mset:
  "mset (container_preorder act rk c) = mset (container_postorder act rk c)"
proof (induction c arbitrary: rk rule: measure_induct_rule [where f = size])
  case (less c)
  show ?case
  proof (cases c)
    case (Container i ct a p nm cs)
    have "mset (concat (map (\<lambda>(key, child).
                     if act \<and> \<not> getattr_active child then []
                     else if is_component child then [(Some key, child)]
                     else container_preorder act (Some key) child) cs))
      = mset (concat (map (\<lambda>(key, child).
                     if act \<and> \<not> getattr_active child then []
                     else if is_component child then [(Some key, child)]
                     else container_postorder act (Some key) child) cs))"
    proof (rule mset_concat_cong)
      fix x assume x: "x \<in> set cs"
      obtain key child where kc: "x = (key, child)" by (cases x)
      have "size child < size c"
        using size_child [of key child cs] x kc Container by simp
      from less.IH [OF this]
      show "mset (case x of (key, child) \<Rightarrow>
                     if act \<and> \<not> getattr_active child then []
                     else if is_component child then [(Some key, child)]
                     else container_preorder act (Some key) child)
        = mset (case x of (key, child) \<Rightarrow>
                     if act \<and> \<not> getattr_active child then []
                     else if is_component child then [(Some key, child)]
                     else container_postorder act (Some key) child)"
        by (simp add: kc)
    qed
    then show ?thesis by (simp add: Container)
  qed simp_all
qed

lemma preorder_items_error:
  "preorder_items ctype act ipb rk e = Inl err \<Longrightarrow> is_component e \<Longrightarrow> err = AttributeError"
proof (induction e arbitrary: rk err rule: measure_induct_rule [where f = size])
  case (less e)
  show ?case
  proof (cases e)
    case (BlockNode i kd a p cs)
    with less.prems obtain r where "Inl err \<in> set (map (pre_child ctype act ipb) cs)"
      by (auto simp: preorder_items_block split: if_splits sum.splits dest: concat_results_Inl)
    then obtain key child where kc: "(key, child) \<in> set cs"
      and e: "pre_child ctype act ipb (key, child) = Inl err"
      by auto
    have sz: "size child < size e"
      using size_child [OF kc] BlockNode by simp
    show ?thesis
    proof (cases "is_container child \<and> \<not> is_component child \<and> ctype_of child = Block")
      case True
      with e have "concat_results (map (pre_obj ctype act ipb)
            (container_preorder act (Some key) child)) = Inl err"
        by (auto simp: pre_child_def split: if_splits)
      then obtain ok obj where o: "(ok, obj) \<in> set (container_preorder act (Some key) child)"
        and oe: "pre_obj ctype act ipb (ok, obj) = Inl err"
        by (auto dest!: concat_results_Inl)
      from oe have c: "is_component obj" and pe: "preorder_items ctype act ipb ok obj = Inl err"
        by (auto simp: pre_obj_def split: if_splits)
      have "size obj < size e"
        using container_preorder_size [OF o] sz by simp
      from less.IH [OF this pe c] show ?thesis .
    next
      case False
      with e have pe: "preorder_items ctype act ipb (Some key) child = Inl err"
        and c: "is_component child"
        by (auto simp: pre_child_def split: if_splits)
      from less.IH [OF sz pe c] show ?thesis .
    qed
  qed (use less.prems in simp_all)
qed

lemma preorder_postorder_same_items:
  "same_items (preorder_items ctype act ipb rk e) (postorder_items ctype act ipb rk e)"
proof (induction e arbitrary: rk rule: measure_induct_rule [where f = size])
  case (less e)
  show ?case
  proof (cases e)
    case (BlockNode i kd a p cs)
    have pointwise: "same_items (pre_child ctype act ipb x) (post_child ctype act ipb x)"
      if "x \<in> set cs" for x
    proof -
      obtain key child where x: "x = (key, child)" by (cases x)
      with that have kc: "(key, child) \<in> set cs" by simp
      have sz: "size child < size e"
        using size_child [OF kc] BlockNode by simp
      consider (skip) "\<not> (ctype = None \<or> Some (ctype_of child) = ctype \<or> ctype_of child = Block)
            \<or> \<not> (\<not> act \<or> getattr_active child)"
        | (leaf) "ctype = None \<or> Some (ctype_of child) = ctype \<or> ctype_of child = Block"
            "\<not> act \<or> getattr_active child" "\<not> is_container child"
        | (blocks) "ctype = None \<or> Some (ctype_of child) = ctype \<or> ctype_of child = Block"
            "\<not> act \<or> getattr_active child" "is_container child" "\<not> is_component child"
            "ctype_of child = Block"
        | (container) "ctype = None \<or> Some (ctype_of child) = ctype \<or> ctype_of child = Block"
            "\<not> act \<or> getattr_active child" "is_container child" "\<not> is_component child"
            "ctype_of child \<noteq> Block"
        | (block) "ctype = None \<or> Some (ctype_of child) = ctype \<or> ctype_of child = Block"
            "\<not> act \<or> getattr_active child" "is_container child" "is_component child"
        by blast
      then show ?thesis
      proof cases
        case skip
        then show ?thesis by (auto simp: x pre_child_def post_child_def)
      next
        case leaf
        then show ?thesis by (simp add: x pre_child_def post_child_def)
      next
        case blocks
        have "same_items
            (concat_results (map (pre_obj ctype act ipb) (container_preorder act (Some key) child)))
            (concat_results (map (post_obj ctype act ipb) (container_postorder act (Some key) child)))"
        proof (rule same_items_concat_results_perm [where ?e0.0 = AttributeError])
          show "mset (container_preorder act (Some key) child)
              = mset (container_postorder act (Some key) child)"
            by (rule container_traversals_mset)
        next
          fix y err assume "y \<in> set (container_preorder act (Some key) child)"
            and pe: "pre_obj ctype act ipb y = Inl err"
          obtain ok obj where yo: "y = (ok, obj)" by (cases y)
          from pe yo have "preorder_items ctype act ipb ok obj = Inl err" "is_component obj"
            by (auto simp: pre_obj_def split: if_splits)
          then show "err = AttributeError"
            by (rule preorder_items_error)
        next
          fix y assume y: "y \<in> set (container_preorder act (Some key) child)"
          obtain ok obj where yo: "y = (ok, obj)" by (cases y)
          have "size obj < size e"
            using container_preorder_size [of ok obj act "Some key" child] y yo sz by simp
          from less.IH [OF this]
          show "same_items (pre_obj ctype act ipb y) (post_obj ctype act ipb y)"
            by (simp add: yo pre_obj_def post_obj_def)
        qed
        with blocks show ?thesis by (simp add: x pre_child_def post_child_def)
      next
        case container
        then show ?thesis
          by (simp add: x pre_child_def post_child_def container_traversals_mset)
      next
        case block
        with less.IH [OF sz] show ?thesis
          by (simp add: x pre_child_def post_child_def)
      qed
    qed
    have cr: "same_items (concat_results (map (pre_child ctype act ipb) cs))
        (concat_results (map (post_child ctype act ipb) cs))"
      using pointwise by (rule same_items_concat_results)
    show ?thesis
    proof (cases "concat_results (map (pre_child ctype act ipb) cs)")
      case (Inl err)
      with cr show ?thesis
        by (simp add: BlockNode preorder_items_block postorder_items_block)
    next
      case (Inr xs)
      with cr obtain ys where "concat_results (map (post_child ctype act ipb) cs) = Inr ys"
        "mset xs = mset ys"
        by (cases "concat_results (map (post_child ctype act ipb) cs)") auto
      with Inr show ?thesis
        by (simp add: BlockNode preorder_items_block postorder_items_block)
    qed
  qed simp_all
qed

lemma scenario_postorder:
  "postorder_traversal None None True False None M_block
     = Inr [Obj x_leaf, Obj y_leaf, Obj B_block, Obj M_block]"
  by (simp add: postorder_traversal_def active_arg_ok_def with_keys_def M_block_def B_block_def
      x_leaf_def y_leaf_def postorder_items_block post_child_def self_item_def getattr_active_def)

lemma scenario_preorder:
  "preorder_traversal None None True False None M_block
     = Inr [Obj M_block, Obj B_block, Obj x_leaf, Obj y_leaf]"
  by (simp add: preorder_traversal_def active_arg_ok_def with_keys_def M_block_def B_block_def
      x_leaf_def y_leaf_def preorder_items_block pre_child_def self_item_def getattr_active_def)

lemma concat_results_member:
  assumes "concat_results (map f xs) = Inr zs" and "z \<in> set zs"
  obtains x part where "x \<in> set xs" "f x = Inr part" "z \<in> set part"
proof -
  from assms(1) have ok: "\<forall>r \<in> set (map f xs). \<not> isl r"
    and zs: "zs = concat (map projr (map f xs))"
    by (simp_all add: concat_results_Inr_iff)
  from assms(2) zs obtain x where x: "x \<in> set xs" "z \<in> set (projr (f x))"
    by auto
  from ok x(1) have "\<not> isl (f x)" by simp
  then have "f x = Inr (projr (f x))" by (cases "f x") auto
  with x that show ?thesis by blast
qed

lemma concat_results_part:
  assumes "concat_results (map f xs) = Inr zs" and "x \<in> set xs"
  obtains part where "f x = Inr part" "set part \<subseteq> set zs"
proof -
  from assms(1) have ok: "\<forall>r \<in> set (map f xs). \<not> isl r"
    and zs: "zs = concat (map projr (map f xs))"
    by (simp_all add: concat_results_Inr_iff)
  from ok assms(2) have "\<not> isl (f x)" by simp
  then have 1: "f x = Inr (projr (f x))" by (cases "f x") auto
  have "set (projr (f x)) \<subseteq> set zs"
    using assms(2) zs by auto
  with 1 that show ?thesis by blast
qed

lemma nodes_self [simp]: "e \<in> set (nodes e)"
  by (cases e) simp_all

lemma nodes_children:
  "nodes e = e # concat (map (\<lambda>(key, child). nodes child) (children e))"
  by (cases e) simp_all

lemma nodes_child_subset:
  assumes "(key, child) \<in> set (children e)"
  shows "set (nodes child) \<subseteq> set (nodes e)"
  using assms by (subst (2) nodes_children) auto

lemma nodes_trans:
  "x \<in> set (nodes c) \<Longrightarrow> set (nodes x) \<subseteq> set (nodes c)"
proof (induction c rule: measure_induct_rule [where f = size])
  case (less c)
  show ?case
  proof (cases "x = c")
    case False
    with less.prems obtain key child where kc: "(key, child) \<in> set (children c)"
      and x: "x \<in> set (nodes child)"
      by (subst (asm) nodes_children) auto
    have "size child < size c"
      using size_child [OF kc] by (cases c) (use kc in auto)
    from less.IH [OF this x] nodes_child_subset [OF kc] show ?thesis by blast
  qed simp
qed

lemma container_preorder_nodes:
  "(k, x) \<in> set (container_preorder act rk c) \<Longrightarrow> x \<in> set (nodes c)"
proof (induction c arbitrary: rk rule: measure_induct_rule [where f = size])
  case (less c)
  show ?case
  proof (cases c)
    case (Container i ct a p nm cs)
    show ?thesis
    proof (cases "x = c")
      case False
      with less.prems Container obtain key child where kc: "(key, child) \<in> set cs"
        and x: "(k, x) \<in> set (if act \<and> \<not> getattr_active child then []
                     else if is_component child then [(Some key, child)]
                     else container_preorder act (Some key) child)"
        by (auto split: if_splits)
      have sz: "size child < size c"
        using size_child [OF kc] Container by simp
      have "x \<in> set (nodes child)"
      proof (cases "is_component child")
        case True
        with x show ?thesis by (auto split: if_splits)
      next
        case False
        with x have "(k, x) \<in> set (container_preorder act (Some key) child)"
          by (auto split: if_splits)
        from less.IH [OF sz this] show ?thesis .
      qed
      with kc Container show ?thesis by auto
    qed simp
  qed (use less.prems in simp_all)
qed

lemma preorder_items_nodes:
  "preorder_items ctype act ipb rk e = Inr out \<Longrightarrow> (k, x) \<in> set out \<Longrightarrow> x \<in> set (nodes e)"
proof (induction e arbitrary: rk out k x rule: measure_induct_rule [where f = size])
  case (less e)
  show ?case
  proof (cases e)
    case (BlockNode i kd a p cs)
    show ?thesis
    proof (cases "x = e")
      case False
      have "\<not> (act \<and> \<not> a)"
        using less.prems BlockNode by (auto simp: preorder_items_block split: if_splits)
      with less.prems(1) BlockNode obtain rest
        where rest: "concat_results (map (pre_child ctype act ipb) cs) = Inr rest"
          and out: "out = self_item ctype ipb rk e @ rest"
        by (auto simp: preorder_items_block split: sum.splits)
      with less.prems(2) False have "(k, x) \<in> set rest"
        by (auto simp: self_item_def split: if_splits)
      with rest obtain kc part where kc: "kc \<in> set cs"
        and part: "pre_child ctype act ipb kc = Inr part" "(k, x) \<in> set part"
        by (rule concat_results_member)
      obtain key child where kc_eq: "kc = (key, child)" by (cases kc)
      have sz: "size child < size e"
        using size_child [of key child cs] kc kc_eq BlockNode by simp
      have "x \<in> set (nodes child)"
      proof (cases "is_container child \<and> \<not> is_component child")
        case True
        show ?thesis
        proof (cases "ctype_of child = Block")
          case True
          with \<open>is_container child \<and> \<not> is_component child\<close> part kc_eq
          have "concat_results (map (pre_obj ctype act ipb)
              (container_preorder act (Some key) child)) = Inr part"
            by (auto simp: pre_child_def split: if_splits)
          from this part(2) obtain y opart
            where y: "y \<in> set (container_preorder act (Some key) child)"
              and op: "pre_obj ctype act ipb y = Inr opart" "(k, x) \<in> set opart"
            by (rule concat_results_member)
          obtain ok obj where yo: "y = (ok, obj)" by (cases y)
          have on: "obj \<in> set (nodes child)"
            using container_preorder_nodes y yo by blast
          have "x \<in> set (nodes obj)"
          proof (cases "is_component obj")
            case True
            with op yo have "preorder_items ctype act ipb ok obj = Inr opart"
              by (simp add: pre_obj_def)
            moreover have "size obj < size e"
              using container_preorder_size [of ok obj act "Some key" child] y yo sz by simp
            ultimately show ?thesis
              using less.IH op(2) by blast
          next
            case False
            with op yo show ?thesis
              by (auto simp: pre_obj_def split: if_splits)
          qed
          with on nodes_trans show ?thesis by blast
        next
          case False
          with True part kc_eq show ?thesis
            by (auto simp: pre_child_def split: if_splits dest: container_preorder_nodes)
        qed
      next
        case False
        show ?thesis
        proof (cases "is_container child")
          case True
          with False part kc_eq
          have "preorder_items ctype act ipb (Some key) child = Inr part"
            by (auto simp: pre_child_def split: if_splits)
          with less.IH [OF sz] part(2) show ?thesis by blast
        next
          case False
          with part kc_eq show ?thesis
            by (auto simp: pre_child_def split: if_splits)
        qed
      qed
      with kc kc_eq BlockNode show ?thesis by auto
    qed simp
  qed (use less.prems in simp_all)
qed

lemma pre_child_nodes:
  assumes "pre_child ctype act ipb (key, child) = Inr part" and "(k, x) \<in> set part"
  shows "x \<in> set (nodes child)"
proof (cases "is_container child \<and> \<not> is_component child \<and> ctype_of child = Block")
  case True
  with assms have "concat_results (map (pre_obj ctype act ipb)
      (container_preorder act (Some key) child)) = Inr part"
    by (auto simp: pre_child_def split: if_splits)
  from this assms(2) obtain y opart
    where y: "y \<in> set (container_preorder act (Some key) child)"
      and op: "pre_obj ctype act ipb y = Inr opart" "(k, x) \<in> set opart"
    by (rule concat_results_member)
  obtain ok obj where yo: "y = (ok, obj)" by (cases y)
  have on: "obj \<in> set (nodes child)"
    using container_preorder_nodes y yo by blast
  have "x \<in> set (nodes obj)"
  proof (cases "is_component obj")
    case True
    with op yo have "preorder_items ctype act ipb ok obj = Inr opart"
      by (simp add: pre_obj_def)
    then show ?thesis using op(2) by (rule preorder_items_nodes)
  next
    case False
    with op yo show ?thesis
      by (auto simp: pre_obj_def split: if_splits)
  qed
  with on nodes_trans show ?thesis by blast
next
  case False
  show ?thesis
  proof (cases "is_container child")
    case True
    show ?thesis
    proof (cases "is_component child")
      case True
      with \<open>is_container child\<close> assms(1)
      have "preorder_items ctype act ipb (Some key) child = Inr part \<or> part = []"
        by (auto simp: pre_child_def split: if_splits)
      with assms(2) show ?thesis
        by (auto dest: preorder_items_nodes)
    next
      case nc: False
      with False True assms show ?thesis
        by (auto simp: pre_child_def split: if_splits dest: container_preorder_nodes)
    qed
  next
    case False
    with assms show ?thesis
      by (auto simp: pre_child_def split: if_splits)
  qed
qed

lemma distinct_children_nodes:
  assumes "distinct (map ident (concat (map (\<lambda>(key, child). nodes child) cs)))"
    and "kc1 \<in> set cs" and "kc2 \<in> set cs"
    and "x \<in> set (nodes (snd kc1))" and "y \<in> set (nodes (snd kc2))" and "ident x = ident y"
  shows "kc1 = kc2"
  using assms
proof (induction cs)
  case Nil
  then show ?case by simp
next
  case (Cons kc cs)
  obtain key child where kc: "kc = (key, child)" by (cases kc)
  from Cons.prems(1) kc
  have d: "distinct (map ident (concat (map (\<lambda>(key, child). nodes child) cs)))"
    and disj: "ident ` set (nodes child)
        \<inter> ident ` set (concat (map (\<lambda>(key, child). nodes child) cs)) = {}"
    by auto
  have in_rest: "ident z \<in> ident ` set (concat (map (\<lambda>(key, child). nodes child) cs))"
    if "kc' \<in> set cs" "z \<in> set (nodes (snd kc'))" for kc' z
  proof (rule imageI)
    show "z \<in> set (concat (map (\<lambda>(key, child). nodes child) cs))"
      using that by (auto simp: case_prod_beta)
  qed
  show ?case
  proof (cases "kc1 = kc")
    case True
    show ?thesis
    proof (cases "kc2 = kc")
      case False
      with Cons.prems(3) have "kc2 \<in> set cs" by simp
      then have "ident y \<in> ident ` set (concat (map (\<lambda>(key, child). nodes child) cs))"
        using Cons.prems(5) by (rule in_rest)
      moreover have "ident x \<in> ident ` set (nodes child)"
        using Cons.prems(4) True kc by simp
      ultimately show ?thesis
        using disj Cons.prems(6) by (simp add: disjoint_iff)
    qed (simp add: True)
  next
    case False
    with Cons.prems(2) have 1: "kc1 \<in> set cs" by simp
    show ?thesis
    proof (cases "kc2 = kc")
      case True
      have "ident x \<in> ident ` set (concat (map (\<lambda>(key, child). nodes child) cs))"
        using 1 Cons.prems(4) by (rule in_rest)
      moreover have "ident y \<in> ident ` set (nodes child)"
        using Cons.prems(5) True kc by simp
      ultimately show ?thesis
        using disj Cons.prems(6) by (simp add: disjoint_iff)
    next
      case False
      with Cons.prems(3) have "kc2 \<in> set cs" by simp
      from Cons.IH [OF d 1 this Cons.prems(4,5,6)] show ?thesis .
    qed
  qed
qed

lemma distinct_nodes_child:
  assumes "distinct (map ident (nodes e))" and "(key, child) \<in> set (children e)"
  shows "distinct (map ident (nodes child))"
    and "\<And>x. x \<in> set (nodes child) \<Longrightarrow> ident x \<noteq> ident e"
    and "distinct (map ident (concat (map (\<lambda>(key, child). nodes child) (children e))))"
proof -
  from assms(1) have d: "distinct (map ident (concat (map (\<lambda>(key, child). nodes child) (children e))))"
    and n: "ident e \<notin> ident ` set (concat (map (\<lambda>(key, child). nodes child) (children e)))"
    by (subst (asm) nodes_children, simp)+
  show "distinct (map ident (concat (map (\<lambda>(key, child). nodes child) (children e))))"
    by (rule d)
  from assms(2) obtain xs ys where split: "children e = xs @ (key, child) # ys"
    by (auto simp: in_set_conv_decomp)
  from d show "distinct (map ident (nodes child))"
    unfolding split by simp
  fix x assume "x \<in> set (nodes child)"
  with assms(2) have "x \<in> set (concat (map (\<lambda>(key, child). nodes child) (children e)))"
    by (auto simp: case_prod_beta intro: bexI [of _ "(key, child)"])
  then have "ident x \<in> ident ` set (concat (map (\<lambda>(key, child). nodes child) (children e)))"
    by (rule imageI)
  with n show "ident x \<noteq> ident e" by metis
qed

lemma block_not_produced:
  assumes d: "distinct (map ident (nodes (BlockNode i kd a p cs)))"
    and r: "preorder_items ctype act ipb rk (BlockNode i kd a p cs) = Inr items"
    and f: "\<not> ipb" "ctype = Some ct" "ct \<noteq> Block"
  shows "i \<notin> ident ` snd ` set items"
proof
  assume "i \<in> ident ` snd ` set items"
  then obtain k y where y: "(k, y) \<in> set items" "ident y = i" by force
  then have na: "\<not> (act \<and> \<not> a)"
    using r by (auto simp: preorder_items_block split: if_splits)
  with r f obtain rest where rest: "concat_results (map (pre_child ctype act ipb) cs) = Inr rest"
    and items: "items = rest"
    by (auto simp: preorder_items_block self_item_def split: sum.splits)
  from rest y(1) [unfolded items] obtain kc part where kc: "kc \<in> set cs"
    and part: "pre_child ctype act ipb kc = Inr part" "(k, y) \<in> set part"
    by (rule concat_results_member)
  obtain key child where kc_eq: "kc = (key, child)" by (cases kc)
  from part kc_eq have "y \<in> set (nodes child)"
    using pre_child_nodes by blast
  from distinct_nodes_child(2) [OF d _ this, of key] kc kc_eq y(2)
  show False by simp
qed

subsection \<open>The preorder traversal follows the tree\<close>

lemma subseq_concat_map:
  "(\<And>x. x \<in> set xs \<Longrightarrow> subseq (f x) (g x)) \<Longrightarrow>
   subseq (concat (map f xs)) (concat (map g xs))"
  by (induction xs) (auto intro: list_emb_append_mono)

lemma subseq_distinct:
  "subseq xs ys \<Longrightarrow> distinct ys \<Longrightarrow> distinct xs"
proof (induction rule: list_emb.induct)
  case (list_emb_Cons2 x y xs ys)
  then have "set xs \<subseteq> set ys"
    by (auto dest: list_emb_set)
  with list_emb_Cons2 show ?case by auto
qed simp_all

lemma map_snd_singletons: "map snd xs = concat (map (\<lambda>(k, obj). [obj]) xs)"
  by (induction xs) auto

lemma map_snd_concat_results:
  assumes "concat_results (map f xs) = Inr zs"
  shows "map snd zs = concat (map (\<lambda>x. map snd (projr (f x))) xs)"
proof -
  from assms have "zs = concat (map projr (map f xs))"
    by (simp add: concat_results_Inr_iff)
  then show ?thesis by (simp add: map_concat comp_def)
qed

lemma concat_results_projr:
  assumes "concat_results (map f xs) = Inr zs" and "x \<in> set xs"
  shows "f x = Inr (projr (f x))"
proof -
  from assms have "\<not> isl (f x)"
    by (simp add: concat_results_Inr_iff)
  then show ?thesis by (cases "f x") auto
qed

lemma container_preorder_expand:
  "subseq (concat (map (\<lambda>(k, obj). expand obj) (container_preorder act rk c))) (nodes c)"
proof (induction c arbitrary: rk rule: measure_induct_rule [where f = size])
  case (less c)
  show ?case
  proof (cases c)
    case (Container i ct a p nm cs)
    show ?thesis
    proof (cases "act \<and> \<not> getattr_active c")
      case True
      then show ?thesis by (simp add: Container)
    next
      case False
      let ?F = "\<lambda>(key, child).
                     if act \<and> \<not> getattr_active child then []
                     else if is_component child then [(Some key, child)]
                     else container_preorder act (Some key) child"
      have cp: "container_preorder act rk c = (rk, c) # concat (map ?F cs)"
        using False by (simp add: Container)
      have "subseq (concat (map (\<lambda>kc. concat (map (\<lambda>(k, obj). expand obj) (?F kc))) cs))
          (concat (map (\<lambda>(key, child). nodes child) cs))"
      proof (rule subseq_concat_map)
        fix kc assume kc: "kc \<in> set cs"
        obtain key child where e: "kc = (key, child)" by (cases kc)
        have sz: "size child < size c"
          using size_child [of key child cs] kc e Container by simp
        show "subseq (concat (map (\<lambda>(k, obj). expand obj) (?F kc)))
            (case kc of (key, child) \<Rightarrow> nodes child)"
          using less.IH [OF sz, of "Some key"] by (simp add: e expand_def)
      qed
      moreover have "concat (map (\<lambda>(k, obj). expand obj) (concat (map ?F cs)))
          = concat (map (\<lambda>kc. concat (map (\<lambda>(k, obj). expand obj) (?F kc))) cs)"
        by (induction cs) simp_all
      ultimately show ?thesis
        by (simp add: cp Container expand_def)
    qed
  qed simp_all
qed

lemma preorder_items_subseq:
  "preorder_items ctype act ipb rk e = Inr items \<Longrightarrow> subseq (map snd items) (nodes e)"
proof (induction e arbitrary: rk items rule: measure_induct_rule [where f = size])
  case (less e)
  show ?case
  proof (cases e)
    case (BlockNode i kd a p cs)
    show ?thesis
    proof (cases "act \<and> \<not> a")
      case True
      with less.prems BlockNode show ?thesis
        by (simp add: preorder_items_block)
    next
      case False
      with less.prems BlockNode obtain rest
        where rest: "concat_results (map (pre_child ctype act ipb) cs) = Inr rest"
          and items: "items = self_item ctype ipb rk e @ rest"
        by (auto simp: preorder_items_block split: sum.splits)
      have per_child: "subseq (map snd (projr (pre_child ctype act ipb kc)))
          (case kc of (key, child) \<Rightarrow> nodes child)" if kc: "kc \<in> set cs" for kc
      proof -
        obtain key child where e: "kc = (key, child)" by (cases kc)
        have sz: "size child < size e"
          using size_child [of key child cs] kc e BlockNode by simp
        from rest kc have r: "pre_child ctype act ipb kc = Inr (projr (pre_child ctype act ipb kc))"
          by (rule concat_results_projr)
        let ?part = "projr (pre_child ctype act ipb kc)"
        have "subseq (map snd ?part) (nodes child)"
        proof (cases "?part = []")
          case True
          then show ?thesis by simp
        next
          case ne: False
          then have pass: "ctype = None \<or> Some (ctype_of child) = ctype \<or> ctype_of child = Block"
            "\<not> act \<or> getattr_active child"
            using r unfolding e pre_child_def by (auto split: if_splits)
          show ?thesis
          proof (cases child)
            case (Leaf i' ct' a' p')
            with pass r e show ?thesis
              by (auto simp: pre_child_def dest!: arg_cong [where f = projr])
          next
            case (BlockNode i' kd' a' p' cs')
            with pass r e have "preorder_items ctype act ipb (Some key) child = Inr ?part"
              by (auto simp: pre_child_def)
            from less.IH [OF sz this] show ?thesis .
          next
            case (Container i' ct' a' p' nm' cs')
            show ?thesis
            proof (cases "ct' = Block")
              case False
              with Container pass r e
              have "?part = container_preorder act (Some key) child"
                by (auto simp: pre_child_def dest!: arg_cong [where f = projr])
              moreover have "map snd (container_preorder act (Some key) child)
                  = concat (map (\<lambda>(k, obj). [obj]) (container_preorder act (Some key) child))"
                by (rule map_snd_singletons)
              moreover have "subseq (concat (map (\<lambda>(k, obj). [obj]) (container_preorder act (Some key) child)))
                  (concat (map (\<lambda>(k, obj). expand obj) (container_preorder act (Some key) child)))"
                by (rule subseq_concat_map) (auto simp: expand_def subseq_singleton_left)
              ultimately show ?thesis
                using container_preorder_expand [of act "Some key" child]
                by (metis subseq_order.order_trans)
            next
              case True
              let ?L = "container_preorder act (Some key) child"
              from True Container pass r e
              have cr: "concat_results (map (pre_obj ctype act ipb) ?L) = Inr ?part"
                by (auto simp: pre_child_def)
              have "subseq (concat (map (\<lambda>y. map snd (projr (pre_obj ctype act ipb y))) ?L))
                  (concat (map (\<lambda>(k, obj). expand obj) ?L))"
              proof (rule subseq_concat_map)
                fix y assume y: "y \<in> set ?L"
                obtain ok obj where yo: "y = (ok, obj)" by (cases y)
                from cr y have ry: "pre_obj ctype act ipb y = Inr (projr (pre_obj ctype act ipb y))"
                  by (rule concat_results_projr)
                show "subseq (map snd (projr (pre_obj ctype act ipb y)))
                    (case y of (k, obj) \<Rightarrow> expand obj)"
                proof (cases "is_component obj")
                  case True
                  with ry yo have "preorder_items ctype act ipb ok obj
                      = Inr (projr (pre_obj ctype act ipb y))"
                    by (simp add: pre_obj_def)
                  moreover have "size obj < size e"
                    using container_preorder_size [of ok obj act "Some key" child] y yo sz by simp
                  ultimately show ?thesis
                    using less.IH True by (simp add: yo expand_def)
                next
                  case False
                  then show ?thesis
                    by (auto simp: yo pre_obj_def expand_def)
                qed
              qed
              then have "subseq (map snd ?part) (concat (map (\<lambda>(k, obj). expand obj) ?L))"
                using map_snd_concat_results [OF cr] by simp
              with container_preorder_expand [of act "Some key" child] show ?thesis
                by (metis subseq_order.order_trans)
            qed
          qed
        qed
        then show ?thesis by (simp add: e)
      qed
      have "subseq (concat (map (\<lambda>kc. map snd (projr (pre_child ctype act ipb kc))) cs))
          (concat (map (\<lambda>(key, child). nodes child) cs))"
        using per_child by (rule subseq_concat_map)
      then have "subseq (map snd rest) (concat (map (\<lambda>(key, child). nodes child) cs))"
        using map_snd_concat_results [OF rest] by simp
      then show ?thesis
        by (auto simp: items self_item_def BlockNode)
    qed
  qed (use less.prems in simp_all)
qed

lemma preorder_items_distinct:
  assumes "preorder_items ctype act ipb rk e = Inr items" and "distinct (map ident (nodes e))"
  shows "distinct (map (ident \<circ> snd) items)"
proof -
  have "subseq (map ident (map snd items)) (map ident (nodes e))"
    using preorder_items_subseq [OF assms(1)] by (rule subseq_map)
  then have "distinct (map ident (map snd items))"
    using assms(2) by (rule subseq_distinct)
  then show ?thesis by simp
qed

subsection \<open>Parents are visited before their children\<close>

lemma parent_in_mono: "parent_in S x \<Longrightarrow> S \<subseteq> T \<Longrightarrow> parent_in T x"
  by (auto simp: parent_in_def split: option.splits)

lemma parents_first_mono:
  "parents_first S xs \<Longrightarrow> S \<subseteq> T \<Longrightarrow> parents_first T xs"
proof (induction xs arbitrary: S T)
  case (Cons x xs)
  from Cons.prems have a: "parents_first (insert (ident x) S) xs" by simp
  from Cons.prems have "insert (ident x) S \<subseteq> insert (ident x) T" by auto
  with a have "parents_first (insert (ident x) T) xs"
    by (rule Cons.IH)
  with Cons.prems show ?case by (auto intro: parent_in_mono)
qed simp

lemma parents_first_append:
  "parents_first S (xs @ ys) \<longleftrightarrow> parents_first S xs \<and> parents_first (S \<union> ident ` set xs) ys"
proof (induction xs arbitrary: S)
  case (Cons x xs)
  have "insert (ident x) S \<union> ident ` set xs = S \<union> ident ` set (x # xs)" by auto
  with Cons [of "insert (ident x) S"] show ?case by auto
qed simp

lemma parents_first_concat:
  assumes "\<And>x. x \<in> set xs \<Longrightarrow> parents_first S (f x)"
  shows "parents_first S (concat (map f xs))"
  using assms
proof (induction xs)
  case (Cons x xs)
  have "parents_first S (concat (map f xs))" using Cons by simp
  then have "parents_first (S \<union> ident ` set (f x)) (concat (map f xs))"
    by (rule parents_first_mono) simp
  with Cons.prems [of x] show ?case by (simp add: parents_first_append)
qed simp

lemma parents_first_expand:
  assumes "parents_first S (map snd L)"
    and "\<And>x T. x \<in> set L \<Longrightarrow> parent_in T (snd x) \<Longrightarrow> parents_first T (f x)"
    and "\<And>x. x \<in> set L \<Longrightarrow> snd x \<in> set (f x)"
  shows "parents_first S (concat (map f L))"
  using assms
proof (induction L arbitrary: S)
  case (Cons x L)
  from Cons.prems(1) have px: "parent_in S (snd x)"
    and rest: "parents_first (insert (ident (snd x)) S) (map snd L)"
    by simp_all
  have "parents_first (insert (ident (snd x)) S) (concat (map f L))"
    using rest Cons.prems(2,3) by (intro Cons.IH) auto
  moreover have "insert (ident (snd x)) S \<subseteq> S \<union> ident ` set (f x)"
    using Cons.prems(3) [of x] by auto
  ultimately have "parents_first (S \<union> ident ` set (f x)) (concat (map f L))"
    by (rule parents_first_mono)
  moreover have "parents_first S (f x)"
    using px Cons.prems(2) by simp
  ultimately show ?case by (simp add: parents_first_append)
qed simp

lemma parents_ok_parent: "parents_ok q e \<Longrightarrow> parent e = q"
  by (cases e) auto

lemma parents_ok_child:
  "parents_ok q e \<Longrightarrow> (key, child) \<in> set (children e) \<Longrightarrow> parents_ok (Some (ident e)) child"
  by (cases e) (auto simp: list_all_iff)

lemma parents_ok_nodes:
  "parents_ok q e \<Longrightarrow> x \<in> set (nodes e) \<Longrightarrow> parents_ok (parent x) x"
proof (induction e arbitrary: q rule: measure_induct_rule [where f = size])
  case (less e)
  show ?case
  proof (cases "x = e")
    case True
    with less.prems show ?thesis by (simp add: parents_ok_parent)
  next
    case False
    with less.prems(2) obtain key child where c: "(key, child) \<in> set (children e)"
      and x: "x \<in> set (nodes child)"
      by (subst (asm) nodes_children) auto
    have "size child < size e"
      using c by (cases e) (auto dest: size_child)
    moreover have "parents_ok (Some (ident e)) child"
      using less.prems(1) c by (rule parents_ok_child)
    ultimately show ?thesis using x by (rule less.IH)
  qed
qed

lemma container_preorder_active:
  "(k, x) \<in> set (container_preorder act rk c) \<Longrightarrow> act \<Longrightarrow> getattr_active x"
proof (induction c arbitrary: rk rule: measure_induct_rule [where f = size])
  case (less c)
  show ?case
  proof (cases c)
    case (Container i ct a p nm cs)
    from less.prems Container have act: "getattr_active c"
      by (auto split: if_splits)
    show ?thesis
    proof (cases "x = c")
      case True
      with act show ?thesis by simp
    next
      case False
      with less.prems Container act obtain key child where kc: "(key, child) \<in> set cs"
        and x: "(k, x) \<in> set (if act \<and> \<not> getattr_active child then []
                     else if is_component child then [(Some key, child)]
                     else container_preorder act (Some key) child)"
        by (auto split: if_splits)
      have sz: "size child < size c"
        using size_child [of key child cs] kc Container by simp
      show ?thesis
      proof (cases "is_component child")
        case True
        with x less.prems(2) show ?thesis by (auto split: if_splits)
      next
        case False
        with x have "(k, x) \<in> set (container_preorder act (Some key) child)"
          by (auto split: if_splits)
        with sz show ?thesis using less.prems(2) by (rule less.IH)
      qed
    qed
  qed (use less.prems in simp_all)
qed

lemma container_preorder_parents_first:
  "parents_ok q c \<Longrightarrow> parent_in S c \<Longrightarrow> parents_first S (map snd (container_preorder act rk c))"
proof (induction c arbitrary: rk q S rule: measure_induct_rule [where f = size])
  case (less c)
  show ?case
  proof (cases c)
    case (Container i ct a p nm cs)
    show ?thesis
    proof (cases "act \<and> \<not> getattr_active c")
      case True
      then show ?thesis by (simp add: Container)
    next
      case False
      let ?F = "\<lambda>(key, child).
                     if act \<and> \<not> getattr_active child then []
                     else if is_component child then [(Some key, child)]
                     else container_preorder act (Some key) child"
      have cp: "container_preorder act rk c = (rk, c) # concat (map ?F cs)"
        using False by (simp add: Container)
      have "parents_first (insert i S) (concat (map (\<lambda>kc. map snd (?F kc)) cs))"
      proof (rule parents_first_concat)
        fix kc assume kc: "kc \<in> set cs"
        obtain key child where e: "kc = (key, child)" by (cases kc)
        have sz: "size child < size c"
          using size_child [of key child cs] kc e Container by simp
        have ok: "parents_ok (Some i) child"
          using less.prems(1) kc e Container by (auto simp: list_all_iff)
        then have pin: "parent_in (insert i S) child"
          by (simp add: parent_in_def parents_ok_parent)
        show "parents_first (insert i S) (map snd (?F kc))"
          using less.IH [OF sz ok pin, of "Some key"] pin
          by (simp add: e)
      qed
      moreover have "map snd (concat (map ?F cs)) = concat (map (\<lambda>kc. map snd (?F kc)) cs)"
        by (simp add: map_concat comp_def)
      ultimately show ?thesis
        using less.prems(2) by (simp add: cp parents_first.simps Container)
    qed
  qed simp_all
qed

lemma preorder_items_parents_first:
  "parents_ok q e \<Longrightarrow> preorder_items ctype act True rk e = Inr items
    \<Longrightarrow> parents_first (insert (ident e) S) (map snd (tl items))
        \<and> (items \<noteq> [] \<longrightarrow> snd (hd items) = e)"
proof (induction e arbitrary: rk items q S rule: measure_induct_rule [where f = size])
  case (less e)
  have IH: "parents_first T (map snd its)"
    if "size x < size e" "parents_ok q' x" "parent_in T x"
      "preorder_items ctype act True k x = Inr its" for x q' T k its
  proof (cases its)
    case (Cons it its')
    with less.IH [OF that(1,2,4), of T] that(3) show ?thesis by simp
  qed simp
  show ?case
  proof (cases e)
    case (BlockNode i kd a p cs)
    show ?thesis
    proof (cases "act \<and> \<not> a")
      case True
      with less.prems BlockNode show ?thesis
        by (simp add: preorder_items_block)
    next
      case False
      with less.prems BlockNode obtain rest
        where rest: "concat_results (map (pre_child ctype act True) cs) = Inr rest"
          and items: "items = (rk, e) # rest"
        by (auto simp: preorder_items_block self_item_def split: sum.splits)
      have per_child: "parents_first (insert i S) (map snd (projr (pre_child ctype act True kc)))"
        if kc: "kc \<in> set cs" for kc
      proof -
        obtain key child where e: "kc = (key, child)" by (cases kc)
        have sz: "size child < size e"
          using size_child [of key child cs] kc e BlockNode by simp
        have ok: "parents_ok (Some i) child"
          using less.prems(1) kc e BlockNode by (auto simp: list_all_iff)
        then have pin: "parent_in (insert i S) child"
          by (simp add: parent_in_def parents_ok_parent)
        from rest kc have r: "pre_child ctype act True kc = Inr (projr (pre_child ctype act True kc))"
          by (rule concat_results_projr)
        let ?part = "projr (pre_child ctype act True kc)"
        show ?thesis
        proof (cases "?part = []")
          case True
          then show ?thesis by simp
        next
          case ne: False
          then have pass: "ctype = None \<or> Some (ctype_of child) = ctype \<or> ctype_of child = Block"
            "\<not> act \<or> getattr_active child"
            using r unfolding e pre_child_def by (auto split: if_splits)
          show ?thesis
          proof (cases child)
            case (Leaf i' ct' a' p')
            with pass r e have "?part = [(Some key, child)]"
              by (auto simp: pre_child_def dest!: arg_cong [where f = projr])
            with pin show ?thesis by simp
          next
            case (BlockNode i' kd' a' p' cs')
            with pass r e have "preorder_items ctype act True (Some key) child = Inr ?part"
              by (auto simp: pre_child_def)
            with sz ok pin show ?thesis by (rule IH)
          next
            case (Container i' ct' a' p' nm' cs')
            let ?L = "container_preorder act (Some key) child"
            have L: "parents_first (insert i S) (map snd ?L)"
              using ok pin by (rule container_preorder_parents_first)
            show ?thesis
            proof (cases "ct' = Block")
              case False
              with Container pass r e have "?part = ?L"
                by (auto simp: pre_child_def dest!: arg_cong [where f = projr])
              with L show ?thesis by simp
            next
              case True
              from True Container pass r e
              have cr: "concat_results (map (pre_obj ctype act True) ?L) = Inr ?part"
                by (auto simp: pre_child_def)
              have "parents_first (insert i S)
                  (concat (map (\<lambda>y. map snd (projr (pre_obj ctype act True y))) ?L))"
                using L
              proof (rule parents_first_expand)
                fix y assume y: "y \<in> set ?L"
                obtain ok' obj where yo: "y = (ok', obj)" by (cases y)
                from cr y have ry: "pre_obj ctype act True y = Inr (projr (pre_obj ctype act True y))"
                  by (rule concat_results_projr)
                have szo: "size obj < size e"
                  using container_preorder_size [of ok' obj act "Some key" child] y yo sz by simp
                have "obj \<in> set (nodes child)"
                  using y yo container_preorder_nodes by blast
                with ok have oko: "parents_ok (parent obj) obj"
                  by (rule parents_ok_nodes)
                show "snd y \<in> set (map snd (projr (pre_obj ctype act True y)))"
                proof (cases "is_component obj")
                  case False
                  then show ?thesis by (simp add: yo pre_obj_def)
                next
                  case True
                  with ry yo obtain i2 kd2 a2 p2 cs2 where b: "obj = BlockNode i2 kd2 a2 p2 cs2"
                    by (cases obj) (auto simp: pre_obj_def)
                  have "\<not> (act \<and> \<not> a2)"
                    using container_preorder_active [of ok' obj act "Some key" child] y yo b
                    by (auto simp: getattr_active_def)
                  with ry yo True b show ?thesis
                    by (auto simp: pre_obj_def preorder_items_block self_item_def
                        split: sum.splits dest!: arg_cong [where f = projr])
                qed
                fix T assume pT: "parent_in T (snd y)"
                show "parents_first T (map snd (projr (pre_obj ctype act True y)))"
                proof (cases "is_component obj")
                  case False
                  with pT show ?thesis
                    by (simp add: yo pre_obj_def)
                next
                  case True
                  with ry yo have "preorder_items ctype act True ok' obj
                      = Inr (projr (pre_obj ctype act True y))"
                    by (simp add: pre_obj_def)
                  moreover from pT yo have "parent_in T obj" by simp
                  ultimately show ?thesis using szo oko by (intro IH)
                qed
              qed
              then show ?thesis
                using map_snd_concat_results [OF cr] by simp
            qed
          qed
        qed
      qed
      have "parents_first (insert i S) (concat (map (\<lambda>kc. map snd (projr (pre_child ctype act True kc))) cs))"
        using per_child by (rule parents_first_concat)
      then have "parents_first (insert i S) (map snd rest)"
        using map_snd_concat_results [OF rest] by simp
      then show ?thesis
        by (simp add: items BlockNode)
    qed
  qed (use less.prems in simp_all)
qed

subsection \<open>Parent references resolve to the container\<close>

lemma structural_parent:
  "x \<in> set (nodes e) \<Longrightarrow> x \<noteq> e
    \<Longrightarrow> \<exists>par k. par \<in> set (nodes e) \<and> (k, x) \<in> set (children par)"
proof (induction e rule: measure_induct_rule [where f = size])
  case (less e)
  from less.prems obtain key child where c: "(key, child) \<in> set (children e)"
    and x: "x \<in> set (nodes child)"
    by (subst (asm) nodes_children) auto
  show ?case
  proof (cases "x = child")
    case True
    with c show ?thesis by (intro exI [of _ e] exI [of _ key]) simp
  next
    case False
    have "size child < size e"
      using c by (cases e) (auto dest: size_child)
    from less.IH [OF this x False] obtain par k
      where "par \<in> set (nodes child)" "(k, x) \<in> set (children par)" by blast
    with nodes_child_subset [OF c] show ?thesis by blast
  qed
qed

lemma find_distinct:
  "distinct (map f xs) \<Longrightarrow> x \<in> set xs \<Longrightarrow> find (\<lambda>y. f y = f x) xs = Some x"
  by (induction xs) (auto simp: image_iff)

lemma deref_unique:
  "distinct (map ident (nodes e)) \<Longrightarrow> x \<in> set (nodes e) \<Longrightarrow> deref e (ident x) = Some x"
  unfolding deref_def by (rule find_distinct)

lemma ident_inj_nodes:
  "distinct (map ident (nodes e)) \<Longrightarrow> x \<in> set (nodes e) \<Longrightarrow> y \<in> set (nodes e)
    \<Longrightarrow> ident x = ident y \<Longrightarrow> x = y"
  by (metis deref_unique option.inject)

lemma parent_deref:
  assumes d: "distinct (map ident (nodes self))" and ok: "parents_ok q self"
    and x: "x \<in> set (nodes self)" and ne: "x \<noteq> self"
  obtains par where "parent x = Some (ident par)" "deref self (ident par) = Some par"
    "par \<in> set (nodes self)" "is_container par"
proof -
  from structural_parent [OF x ne] obtain par k
    where par: "par \<in> set (nodes self)" and c: "(k, x) \<in> set (children par)" by blast
  from ok par have "parents_ok (parent par) par" by (rule parents_ok_nodes)
  then have "parents_ok (Some (ident par)) x" using c by (rule parents_ok_child)
  then have "parent x = Some (ident par)" by (rule parents_ok_parent)
  moreover have "deref self (ident par) = Some par" using d par by (rule deref_unique)
  moreover have "is_container par" using c by (cases par) auto
  ultimately show ?thesis using par that by blast
qed


subsection \<open>The loop of \<open>generate_names\<close>\<close>

lemma names_loop_named:
  assumes d: "distinct (map (ident \<circ> snd) tr)"
    and disj: "\<And>k obj. (k, obj) \<in> set tr \<Longrightarrow> ident obj \<notin> insert (ident self) (dom N0)"
    and pf: "parents_first (insert (ident self) (dom N0)) (map snd tr)"
    and pd: "\<And>k obj p. (k, obj) \<in> set tr \<Longrightarrow> parent obj = Some p \<Longrightarrow>
        \<exists>par. deref self p = Some par \<and> ident par = p \<and> is_container par
          \<and> (p = ident self \<longrightarrow> is_component par)"
  shows "\<exists>N. names_loop self convert name_prefix tr N0 = Inr N
          \<and> dom N = dom N0 \<union> (ident \<circ> snd) ` set tr
          \<and> (\<forall>k \<in> dom N0. N k = N0 k)
          \<and> (\<forall>(key, obj) \<in> set tr. named self convert name_prefix N (KeyObj key obj))"
  using assms
proof (induction tr arbitrary: N0)
  case Nil
  then show ?case by simp
next
  case (Cons item tr)
  obtain key obj where item: "item = (key, obj)" by (cases item)
  let ?S = "insert (ident self) (dom N0)"
  from Cons.prems(3) item have pin: "parent_in ?S obj"
    and pf': "parents_first (insert (ident obj) ?S) (map snd tr)"
    by simp_all
  from pin obtain p where p: "parent obj = Some p" and pS: "p \<in> ?S"
    by (auto simp: parent_in_def split: option.splits)
  from Cons.prems(4) [of key obj p] item p obtain par
    where par: "deref self p = Some par" and ip: "ident par = p" and cont: "is_container par"
      and root: "p = ident self \<longrightarrow> is_component par"
    by auto
  have fresh: "ident obj \<notin> ?S"
    using Cons.prems(2) [of key obj] item by simp
  define new_name where "new_name =
    (case par of
       BlockNode i kd a q cs \<Rightarrow>
         if i = ident self then name_prefix @ convert key
         else the (N0 i) @ ''.'' @ convert key
     | Container i ct a q nm cs \<Rightarrow>
         the (N0 i) @ child_storage_delimiter_string nm
           @ fst (child_storage_entry_string nm) @ convert key
           @ snd (child_storage_entry_string nm)
     | Leaf i ct a q \<Rightarrow> [])"
  let ?N1 = "N0(ident obj \<mapsto> new_name)"
  have known: "p \<noteq> ident self \<Longrightarrow> \<exists>pn. N0 p = Some pn"
    using pS by auto
  have step: "names_loop self convert name_prefix (item # tr) N0
      = names_loop self convert name_prefix tr ?N1"
  proof (cases par)
    case (Leaf i ct a q)
    with cont show ?thesis by simp
  next
    case (BlockNode i kd a q cs)
    with ip have "i = p" by simp
    with known BlockNode p par show ?thesis
      by (auto simp: item new_name_def)
  next
    case (Container i ct a q nm cs)
    with ip root have "i = p" "p \<noteq> ident self" by auto
    with known Container p par show ?thesis
      by (auto simp: item new_name_def case_prod_beta)
  qed
  have dom1: "insert (ident self) (dom ?N1) = insert (ident obj) ?S"
    by auto
  have "\<exists>N. names_loop self convert name_prefix tr ?N1 = Inr N
          \<and> dom N = dom ?N1 \<union> (ident \<circ> snd) ` set tr
          \<and> (\<forall>k \<in> dom ?N1. N k = ?N1 k)
          \<and> (\<forall>(key, obj) \<in> set tr. named self convert name_prefix N (KeyObj key obj))"
  proof (rule Cons.IH)
    show "distinct (map (ident \<circ> snd) tr)"
      using Cons.prems(1) by (simp add: comp_def)
    show "ident obj' \<notin> insert (ident self) (dom ?N1)" if "(k, obj') \<in> set tr" for k obj'
    proof -
      from that Cons.prems(1) item have "ident obj' \<noteq> ident obj"
        by (force simp: image_iff)
      moreover from that Cons.prems(2) [of k obj'] have "ident obj' \<notin> ?S" by simp
      ultimately show ?thesis by simp
    qed
    show "parents_first (insert (ident self) (dom ?N1)) (map snd tr)"
      using pf' by (simp only: dom1)
    show "\<exists>par. deref self p' = Some par \<and> ident par = p' \<and> is_container par
          \<and> (p' = ident self \<longrightarrow> is_component par)"
      if "(k, obj') \<in> set tr" "parent obj' = Some p'" for k obj' p'
      using that Cons.prems(4) [of k obj' p'] by simp
  qed
  then obtain N where N: "names_loop self convert name_prefix tr ?N1 = Inr N"
    and domN: "dom N = dom ?N1 \<union> (ident \<circ> snd) ` set tr"
    and keep: "\<forall>k \<in> dom ?N1. N k = ?N1 k"
    and named_tr: "\<forall>(key, obj) \<in> set tr. named self convert name_prefix N (KeyObj key obj)"
    by blast
  have Nobj: "N (ident obj) = Some new_name"
    using keep by simp
  have keep0: "N k = N0 k" if "k \<in> dom N0" for k
  proof -
    from that fresh have "k \<noteq> ident obj" by auto
    with that keep show ?thesis by auto
  qed
  have Np: "N p = N0 p" if "p \<noteq> ident self"
    using that pS keep0 by auto
  have named_obj: "named self convert name_prefix N (KeyObj key obj)"
  proof (cases par)
    case (Leaf i ct a q)
    with cont show ?thesis by simp
  next
    case (BlockNode i kd a q cs)
    with ip have "i = p" by simp
    with known Np BlockNode p par Nobj show ?thesis
      by (auto simp: named_def new_name_def)
  next
    case (Container i ct a q nm cs)
    with ip root have "i = p" "p \<noteq> ident self" by auto
    with known Np Container p par Nobj show ?thesis
      by (auto simp: named_def new_name_def)
  qed
  have "names_loop self convert name_prefix (item # tr) N0 = Inr N"
    using step N by simp
  moreover have "dom N = dom N0 \<union> (ident \<circ> snd) ` set (item # tr)"
    using domN by (auto simp: item)
  moreover have "\<forall>k \<in> dom N0. N k = N0 k"
    using keep0 by blast
  moreover have "\<forall>(key, obj) \<in> set (item # tr). named self convert name_prefix N (KeyObj key obj)"
    using named_obj named_tr by (simp add: item)
  ultimately show ?case by blast
qed


lemma string_of_nat_0: "string_of_nat 0 = ''0''"
  by code_simp

section \<open>Properties of attaching and detaching\<close>

text \<open>
  C3.  Attaching an entity whose parent reference is already set raises the error of
  a duplicate parent (\<open>ValueError\<close> in the code), logs nothing and leaves the whole
  store unchanged: the entity, its present parent and the block.  The one exception is
  the entity that is already the value of this very attribute of the block: then
  nothing is raised, nothing is logged, and the store is unchanged as well.
\<close>

theorem setattr_duplicate_parent:
  assumes "h_parent (h e) \<noteq> None"
  shows "block_setattr h b n (Categorized e) =
           (if map_of (h_dict (h b)) n = Some (Categorized e)
            then (None, [], h) else (Some ValueError, [], h))"
  using assms by (rule setattr_has_parent)

theorem setattr_duplicate_parent_witness:
  "h_parent (attached_x 1) \<noteq> None
   \<and> block_setattr attached_x 0 ''y'' (Categorized 1) = (Some ValueError, [], attached_x)
   \<and> block_setattr attached_x 0 ''x'' (Categorized 1) = (None, [], attached_x)"
proof -
  have p: "h_parent (attached_x 1) \<noteq> None"
    by (simp add: attached_x_def block_setattr_def block_delattr_def fresh_def has_key_def
        set_parent_def set_order_def set_byctype_def set_dict_def super_setattr_def super_delattr_def
        block_children_items_def Let_def)
  have y: "map_of (h_dict (attached_x 0)) ''y'' \<noteq> Some (Categorized 1)"
    by (simp add: attached_x_def block_setattr_def block_delattr_def fresh_def has_key_def
        set_parent_def set_order_def set_byctype_def set_dict_def super_setattr_def super_delattr_def
        block_children_items_def Let_def)
  have x: "map_of (h_dict (attached_x 0)) ''x'' = Some (Categorized 1)"
    by (simp add: attached_x_def block_setattr_def block_delattr_def fresh_def has_key_def
        set_parent_def set_order_def set_byctype_def set_dict_def super_setattr_def super_delattr_def
        block_children_items_def Let_def)
  show ?thesis
    using p x y
      setattr_duplicate_parent [of attached_x 1 0 "''y''"]
      setattr_duplicate_parent [of attached_x 1 0 "''x''"]
    by simp
qed







section \<open>Properties of the traversals\<close>





section \<open>Properties of \<open>collect_ctypes\<close>\<close>

text \<open>
  C7.  On a block whose only child is an empty list of category \<open>Var\<close>, no component
  is stored on or under the block: \<open>components\<close> produces nothing.  Yet
  \<open>collect_ctypes(active=None, descend_into=True)\<close> of a \<open>block\<close> returns the category
  \<open>Var\<close>, where the same call with \<open>active=True\<close> returns no category, and where
  \<open>StaticBlock.collect_ctypes\<close> with the same child returns no category either.
\<close>

theorem collect_ctypes_empty_list:
  "components None None True (block_with_empty_list DynamicBlock) = Inr []
   \<and> collect_ctypes None True (block_with_empty_list DynamicBlock) = Inr {Ctype ''Var''}
   \<and> collect_ctypes (Some True) True (block_with_empty_list DynamicBlock) = Inr {}
   \<and> components None None True (block_with_empty_list StaticBlock) = Inr []
   \<and> collect_ctypes None True (block_with_empty_list StaticBlock) = Inr {}"
  by (simp add: collect_ctypes_def components_def active_arg_ok_def block_with_empty_list_def
      empty_list_def children_of_def byctype_keys_def getattr_active_def is_active_container_def)

section \<open>Properties of \<open>generate_names\<close>\<close>

text \<open>
  A name is put together with the delimiter and the entry format of the parent of the
  object, not with a dot in every case.  In a block \<open>m\<close> with \<open>m.L = block_list()\<close>, a
  block appended to the list and a leaf \<open>x\<close> on that block, the parent of the block at
  position 0 is the list, whose name is \<open>L\<close>; with the naming attributes of a list the
  block gets the name \<open>L[0]\<close>, which is not \<open>L.0\<close>, and its leaf the name \<open>L[0].x\<close>.
\<close>

theorem generate_names_block_list:
  "map_sum id (\<lambda>names. map names [1, 2, 3])
      (generate_names None None True str [] block_with_list)
     = Inr [Some ''L'', Some ''L[0]'', Some ''L[0].x'']
   \<and> parent list_entry = Some (ident block_list_L)
   \<and> ''L[0]'' \<noteq> ''L'' @ ''.'' @ str (Some (Index 0))"
  by (simp add: generate_names_def active_arg_ok_def block_with_list_def block_list_L_def
      list_entry_def list_x_def list_naming_def preorder_items_block pre_child_def pre_obj_def
      self_item_def getattr_active_def deref_def Let_def string_of_nat_0
      del: string_of_nat.simps)

text \<open>
  C8.  Let the objects of the tree of \<open>self\<close> have distinct identities and parent
  references that point to the container they are stored in, and let the preorder
  traversal of \<open>self\<close> with keys and parent blocks return.  Then \<open>generate_names\<close> with
  \<open>descend_into=True\<close> returns a mapping whose keys are exactly the objects that the
  traversal produces after the root, and that maps each of them as \<open>named\<close> says: an
  object stored in \<open>self\<close> to the prefix followed by its converted key, an object stored
  in another block to the name of that block, a dot and its converted key, and an
  object stored in a list or dictionary to the name of that container, the delimiter of
  the container and its converted key in the entry format of the container.  In the
  scenario the leaf \<open>x\<close> gets the name \<open>b.x\<close>.
\<close>

theorem generate_names_named:
  assumes d: "distinct (map ident (nodes self))" and ok: "parents_ok q self"
    and pre: "preorder_traversal ctype active True True None self = Inr out"
  shows "\<exists>names. generate_names ctype active True convert name_prefix self = Inr names
          \<and> dom names = produced_ids (tl out)
          \<and> (\<forall>item \<in> set (tl out). named self convert name_prefix names item)"
proof -
  let ?act = "active = Some True"
  from pre have arg: "active_arg_ok active"
    by (auto simp: preorder_traversal_def split: if_splits)
  with pre obtain items where items: "preorder_items ctype ?act True None self = Inr items"
    and out: "out = with_keys True items"
    by (cases "preorder_items ctype ?act True None self") (auto simp: preorder_traversal_def)
  from items obtain i kd a p cs where self: "self = BlockNode i kd a p cs"
    by (cases self) auto
  show ?thesis
  proof (cases "?act \<and> \<not> a")
    case True
    with items self have "items = []"
      by (auto simp: preorder_items_block)
    with True arg self out show ?thesis
      by (auto simp: generate_names_def with_keys_def produced_ids_def)
  next
    case False
    with items self obtain rest where its: "items = (None, self) # rest"
      by (auto simp: preorder_items_block self_item_def split: sum.splits)
    from items d have dist: "distinct (map (ident \<circ> snd) items)"
      by (rule preorder_items_distinct)
    from ok items have pf: "parents_first (insert (ident self) {}) (map snd (tl items))"
      using preorder_items_parents_first by blast
    have in_nodes: "obj \<in> set (nodes self)" if "(k, obj) \<in> set rest" for k obj
      using items that by (auto simp: its intro: preorder_items_nodes)
    have not_self: "ident obj \<noteq> ident self" if "(k, obj) \<in> set rest" for k obj
      using dist that by (force simp: its image_iff)
    have "\<exists>N. names_loop self convert name_prefix rest Map.empty = Inr N
          \<and> dom N = dom (Map.empty :: oid \<rightharpoonup> string) \<union> (ident \<circ> snd) ` set rest
          \<and> (\<forall>k \<in> dom (Map.empty :: oid \<rightharpoonup> string). N k = Map.empty k)
          \<and> (\<forall>(key, obj) \<in> set rest. named self convert name_prefix N (KeyObj key obj))"
    proof (rule names_loop_named)
      show "distinct (map (ident \<circ> snd) rest)"
        using dist by (simp add: its comp_def)
      show "ident obj \<notin> insert (ident self) (dom (Map.empty :: oid \<rightharpoonup> string))"
        if "(k, obj) \<in> set rest" for k obj
        using not_self [OF that] by simp
      show "parents_first (insert (ident self) (dom (Map.empty :: oid \<rightharpoonup> string))) (map snd rest)"
        using pf by (simp add: its)
      show "\<exists>par. deref self p' = Some par \<and> ident par = p' \<and> is_container par
          \<and> (p' = ident self \<longrightarrow> is_component par)"
        if m: "(k, obj) \<in> set rest" and p': "parent obj = Some p'" for k obj p'
      proof -
        from in_nodes [OF m] have x: "obj \<in> set (nodes self)" .
        from not_self [OF m] have ne: "obj \<noteq> self" by auto
        from d ok x ne obtain par where par: "parent obj = Some (ident par)"
          "deref self (ident par) = Some par" "par \<in> set (nodes self)" "is_container par"
          by (rule parent_deref)
        have "is_component par" if "p' = ident self"
        proof -
          from that par(1) p' have "ident par = ident self" by simp
          with d par(3) have "par = self"
            using ident_inj_nodes [of self par self] by simp
          then show ?thesis by (simp add: self)
        qed
        with par p' show ?thesis by auto
      qed
    qed
    then obtain N where N: "names_loop self convert name_prefix rest Map.empty = Inr N"
      and domN: "dom N = (ident \<circ> snd) ` set rest"
      and named_rest: "\<forall>(key, obj) \<in> set rest. named self convert name_prefix N (KeyObj key obj)"
      by auto
    have "generate_names ctype active True convert name_prefix self = Inr N"
      using arg False items N by (cases "active = Some True") (simp_all add: generate_names_def self its)
    moreover have "tl out = map (\<lambda>(key, obj). KeyObj key obj) rest"
      by (simp add: out its with_keys_def)
    moreover from this have "produced_ids (tl out) = (ident \<circ> snd) ` set rest"
      by (force simp: produced_ids_def image_iff)
    ultimately show ?thesis
      using domN named_rest by auto
  qed
qed

theorem generate_names_named_witness:
  "distinct (map ident (nodes M_block)) \<and> parents_ok None M_block
   \<and> preorder_traversal None None True True None M_block
       = Inr [KeyObj None M_block, KeyObj (Some (Name ''b'')) B_block,
              KeyObj (Some (Name ''x'')) x_leaf, KeyObj (Some (Name ''y'')) y_leaf]
   \<and> (\<exists>names. generate_names None None True str [] M_block = Inr names
         \<and> names (ident B_block) = Some ''b'' \<and> names (ident x_leaf) = Some ''b.x'')"
proof -
  have d: "distinct (map ident (nodes M_block))"
    by (simp add: M_block_def B_block_def x_leaf_def y_leaf_def)
  have ok: "parents_ok None M_block"
    by (simp add: M_block_def B_block_def x_leaf_def y_leaf_def)
  have pre: "preorder_traversal None None True True None M_block
       = Inr [KeyObj None M_block, KeyObj (Some (Name ''b'')) B_block,
              KeyObj (Some (Name ''x'')) x_leaf, KeyObj (Some (Name ''y'')) y_leaf]"
    by (simp add: preorder_traversal_def active_arg_ok_def with_keys_def M_block_def B_block_def
      x_leaf_def y_leaf_def preorder_items_block pre_child_def self_item_def getattr_active_def)
  from generate_names_named [OF d ok pre, of str "[]"] obtain names
    where g: "generate_names None None True str [] M_block = Inr names"
      and b: "named M_block str [] names (KeyObj (Some (Name ''b'')) B_block)"
      and x: "named M_block str [] names (KeyObj (Some (Name ''x'')) x_leaf)"
    by auto
  from b have nb: "names (ident B_block) = Some ''b''"
    by (simp add: named_def deref_def M_block_def B_block_def x_leaf_def y_leaf_def)
  from x nb have "names (ident x_leaf) = Some ''b.x''"
    by (simp add: named_def deref_def M_block_def B_block_def x_leaf_def y_leaf_def)
  with d ok pre g nb show ?thesis by simp
qed

section \<open>Properties of the arguments and of \<open>children\<close>\<close>




end
